theory Spec2Isabelle
  imports Complex_Main "HOL-Library.Stream"
begin

section \<open>MazeForge: the maze formation engine of \<^verbatim>\<open>Maze.py\<close> and \<^verbatim>\<open>maze_generator.py\<close>\<close>

text \<open>
  The theory embeds the class \<^verbatim>\<open>Maze\<close> (grid of tiles, the two formation algorithms,
  braiding, entry/exit placement, the three list exporters and the argument checks of
  \<^verbatim>\<open>makePP\<close>) and the function \<^verbatim>\<open>generate_maze\<close>.

  Conventions of the embedding.
  \<^item> A Python reference to a tile object is the position \<open>(x, y)\<close> of that object inside
    \<^verbatim>\<open>mazeList\<close> (column, row); \<^verbatim>\<open>mazeList\<close> is the store. Lists of tiles
    (\<^verbatim>\<open>frontList\<close>, \<^verbatim>\<open>choiceList\<close>, ...) are lists of such references, and object
    identity is equality of positions.
  \<^item> The compass strings \<^verbatim>\<open>"N"\<close>, \<^verbatim>\<open>"S"\<close>, \<^verbatim>\<open>"W"\<close>, \<^verbatim>\<open>"E"\<close> stored in
    \<^verbatim>\<open>connectTo\<close> are the constructors of \<open>direction\<close>; the wall selectors
    \<^verbatim>\<open>start_wall\<close>/\<^verbatim>\<open>end_wall\<close> stay strings, as the source compares them.
  \<^item> Exceptions are values of \<open>error\<close>; a method that mutates \<^verbatim>\<open>self\<close> returns its
    outcome together with the maze as the exception or the return leaves it.
  \<^item> The module-wide generator \<^verbatim>\<open>random\<close> is a stream of raw draws that every call
    consumes from the front.
  \<^item> Coordinates and sizes are natural numbers: the constructor rejects sizes below 1 and
    every coordinate comes from \<^verbatim>\<open>range\<close>.
\<close>

subsection \<open>Errors, directions, tiles, the maze\<close>

datatype error =
    MazeError string nat   \<comment> \<open>\<^verbatim>\<open>__MazeError(string, errorcode)\<close>\<close>
  | IndexError
  | ValueError
  | KeyError

datatype direction = North | South | West | East

record MazeTile =
  workedOn :: bool
  wall :: bool
  coordinateX :: nat
  coordinateY :: nat
  connectTo :: "direction list"
  is_entry :: "bool option"

type_synonym pos = "nat \<times> nat"

record Maze =
  sizeX :: nat
  sizeY :: nat
  mazeName :: string
  mazeIsDone :: bool
  mazeList :: "MazeTile list list"
  start_wall :: string
  end_wall :: string

definition new_MazeTile :: "nat \<Rightarrow> nat \<Rightarrow> bool \<Rightarrow> MazeTile" where
  "new_MazeTile X Y isWall =
     \<lparr>workedOn = False, wall = isWall, coordinateX = X, coordinateY = Y,
      connectTo = [], is_entry = None\<rparr>"

subsection \<open>The random module\<close>

type_synonym rng = "nat stream"

text \<open>
  \<^verbatim>\<open>random()\<close> returns the double \<open>k / 2^53\<close> for a 53-bit integer \<open>k\<close>; the
  model returns \<open>k\<close>. Both algorithms only use the double product
  \<^verbatim>\<open>random() * 100\<close>: the exact product \<open>100 k / 2^53\<close> rounded to 53 significant
  bits, ties to even (\<open>100 k\<close> is below \<open>2^60\<close>, so at most 7 bits are dropped, and
  nothing overflows or underflows). The product is a rational number, kept as a real; the
  comparisons with the integer weights are exact, as Python's are.
\<close>

definition rnd_random :: "rng \<Rightarrow> nat \<times> rng" where
  "rnd_random r = (shd r mod 2 ^ 53, stl r)"

definition excess_bits :: "nat \<Rightarrow> nat" where
  "excess_bits n =
     (if n < 2 ^ 53 then 0 else if n < 2 ^ 54 then 1 else if n < 2 ^ 55 then 2
      else if n < 2 ^ 56 then 3 else if n < 2 ^ 57 then 4 else if n < 2 ^ 58 then 5
      else if n < 2 ^ 59 then 6 else 7)"

definition round_half_even :: "nat \<Rightarrow> nat \<Rightarrow> nat" where
  "round_half_even n e =
     (let q = n div 2 ^ e; rest = n mod 2 ^ e
      in if 2 * rest > 2 ^ e \<or> (2 * rest = 2 ^ e \<and> odd q) then (q + 1) * 2 ^ e
         else q * 2 ^ e)"

definition times_100 :: "nat \<Rightarrow> real" where
  "times_100 k = real (round_half_even (k * 100) (excess_bits (k * 100))) / 2 ^ 53"

definition rnd_choice :: "'a list \<Rightarrow> rng \<Rightarrow> (error + 'a) \<times> rng" where
  "rnd_choice xs r =
     (if xs = [] then (Inl IndexError, r)
      else (Inr (xs ! (shd r mod length xs)), stl r))"

fun shuffle_from :: "nat \<Rightarrow> 'a list \<Rightarrow> rng \<Rightarrow> 'a list \<times> rng" where
  "shuffle_from 0 xs r = (xs, r)"
| "shuffle_from (Suc i) xs r =
     (let j = shd r mod (Suc (Suc i))
      in shuffle_from i (xs[Suc i := xs ! j, j := xs ! Suc i]) (stl r))"

definition rnd_shuffle :: "'a list \<Rightarrow> rng \<Rightarrow> 'a list \<times> rng" where
  "rnd_shuffle xs r = shuffle_from (length xs - 1) xs r"

subsection \<open>Tiles in the store\<close>

definition valid_ref :: "Maze \<Rightarrow> pos \<Rightarrow> bool" where
  "valid_ref m p \<longleftrightarrow> snd p < length (mazeList m) \<and> fst p < length (mazeList m ! snd p)"

definition tile :: "Maze \<Rightarrow> pos \<Rightarrow> MazeTile" where
  "tile m p = mazeList m ! snd p ! fst p"

definition upd_tile :: "Maze \<Rightarrow> pos \<Rightarrow> (MazeTile \<Rightarrow> MazeTile) \<Rightarrow> Maze" where
  "upd_tile m p f =
     m\<lparr>mazeList := (mazeList m)[snd p := (mazeList m ! snd p)[fst p := f (tile m p)]]\<rparr>"

definition append_connection :: "Maze \<Rightarrow> pos \<Rightarrow> direction \<Rightarrow> Maze" where
  "append_connection m p d = upd_tile m p (\<lambda>t. t\<lparr>connectTo := connectTo t @ [d]\<rparr>)"

definition row_refs :: "Maze \<Rightarrow> nat \<Rightarrow> pos list" where
  "row_refs m y = map (\<lambda>x. (x, y)) [0..<length (mazeList m ! y)]"

definition mazeList_refs :: "Maze \<Rightarrow> pos list list" where
  "mazeList_refs m = map (row_refs m) [0..<length (mazeList m)]"

subsection \<open>Grid model: neighbours and the two connect operations\<close>

definition getNextTiles :: "Maze \<Rightarrow> nat \<Rightarrow> nat \<Rightarrow> pos list" where
  "getNextTiles m X Y =
     (if Y = 0 then [] else if valid_ref m (X, Y - 1) then [(X, Y - 1)] else []) @
     (if valid_ref m (X, Y + 1) then [(X, Y + 1)] else []) @
     (if X = 0 then [] else if valid_ref m (X - 1, Y) then [(X - 1, Y)] else []) @
     (if valid_ref m (X + 1, Y) then [(X + 1, Y)] else [])"

definition connectTiles :: "Maze \<Rightarrow> pos \<Rightarrow> pos \<Rightarrow> Maze" where
  "connectTiles m tileA tileB =
     (let X1 = coordinateX (tile m tileA); Y1 = coordinateY (tile m tileA);
          X2 = coordinateX (tile m tileB); Y2 = coordinateY (tile m tileB)
      in if X1 = X2 then
           (if Y1 < Y2 then append_connection (append_connection m tileA South) tileB North
            else if Y1 > Y2 then append_connection (append_connection m tileA North) tileB South
            else m)
         else
           (if X1 < X2 then append_connection (append_connection m tileA East) tileB West
            else append_connection (append_connection m tileA West) tileB East))"

definition cannot_connect :: error where
  "cannot_connect = MazeError ''This tile can not connect in this direction'' 2"

definition connectTilesWithString :: "Maze \<Rightarrow> pos \<Rightarrow> direction \<Rightarrow> (error + bool) \<times> Maze" where
  "connectTilesWithString m t direction =
     (let X = coordinateX (tile m t); Y = coordinateY (tile m t) in
      case direction of
        North \<Rightarrow>
          if Y = 0 then (Inl cannot_connect, m)
          else if valid_ref m (X, Y - 1)
          then (Inr True, append_connection (append_connection m (X, Y - 1) South) t North)
          else (Inl cannot_connect, m)
      | South \<Rightarrow>
          if valid_ref m (X, Y + 1)
          then (Inr True, append_connection (append_connection m (X, Y + 1) North) t South)
          else (Inl cannot_connect, m)
      | West \<Rightarrow>
          if X = 0 then (Inl cannot_connect, m)
          else if valid_ref m (X - 1, Y)
          then (Inr True, append_connection (append_connection m (X - 1, Y) East) t West)
          else (Inl cannot_connect, m)
      | East \<Rightarrow>
          if valid_ref m (X + 1, Y)
          then (Inr True, append_connection (append_connection m (X + 1, Y) West) t East)
          else (Inl cannot_connect, m))"

subsection \<open>Boundary placement\<close>

definition get_wall_tiles :: "Maze \<Rightarrow> string \<Rightarrow> pos list" where
  "get_wall_tiles m w =
     (if w = ''N'' then map (\<lambda>x. (x, 0)) [0..<sizeX m]
      else if w = ''S'' then map (\<lambda>x. (x, sizeY m - 1)) [0..<sizeX m]
      else if w = ''W'' then map (\<lambda>y. (0, y)) [0..<sizeY m]
      else if w = ''E'' then map (\<lambda>y. (sizeX m - 1, y)) [0..<sizeY m]
      else map (\<lambda>x. (x, 0)) [0..<sizeX m] @
           map (\<lambda>x. (x, sizeY m - 1)) [0..<sizeX m] @
           map (\<lambda>y. (0, y)) [1..<sizeY m - 1] @
           map (\<lambda>y. (sizeX m - 1, y)) [1..<sizeY m - 1])"

text \<open>
  The loop \<^verbatim>\<open>while True: ... if entry_pos != exit_pos: break\<close>. It has no bound, so it
  is a partial function: \<open>None\<close> is the run that never leaves the loop.
\<close>

partial_function (option) pick_positions ::
  "pos list \<Rightarrow> pos list \<Rightarrow> rng \<Rightarrow> ((error + pos \<times> pos) \<times> rng) option" where
  "pick_positions start_tiles end_tiles r =
     (case rnd_choice start_tiles r of
        (Inl e, r1) \<Rightarrow> Some (Inl e, r1)
      | (Inr entry_pos, r1) \<Rightarrow>
          (case rnd_choice end_tiles r1 of
             (Inl e, r2) \<Rightarrow> Some (Inl e, r2)
           | (Inr exit_pos, r2) \<Rightarrow>
               if entry_pos \<noteq> exit_pos then Some (Inr (entry_pos, exit_pos), r2)
               else pick_positions start_tiles end_tiles r2))"

definition outward_direction :: "Maze \<Rightarrow> pos \<Rightarrow> direction" where
  "outward_direction m p =
     (if snd p = 0 then North
      else if snd p = sizeY m - 1 then South
      else if fst p = 0 then West
      else East)"

definition mark_boundary_tile :: "Maze \<Rightarrow> pos \<Rightarrow> bool \<Rightarrow> Maze" where
  "mark_boundary_tile m p entry =
     append_connection (upd_tile m p (\<lambda>t. t\<lparr>is_entry := Some entry\<rparr>)) p (outward_direction m p)"

definition makeEntryandExit :: "Maze \<Rightarrow> rng \<Rightarrow> ((error + bool) \<times> Maze \<times> rng) option" where
  "makeEntryandExit m r =
     (case pick_positions (get_wall_tiles m (start_wall m)) (get_wall_tiles m (end_wall m)) r of
        None \<Rightarrow> None
      | Some (Inl e, r') \<Rightarrow> Some (Inl e, m, r')
      | Some (Inr (entry_pos, exit_pos), r') \<Rightarrow>
          if \<not> valid_ref m entry_pos then Some (Inl IndexError, m, r')
          else let m1 = mark_boundary_tile m entry_pos True in
            if \<not> valid_ref m1 exit_pos then Some (Inl IndexError, m1, r')
            else Some (Inr True, mark_boundary_tile m1 exit_pos False, r'))"

subsection \<open>Reading and writing the store\<close>

lemma row_upd:
  "mazeList (upd_tile m p f) ! y =
     (if y = snd p \<and> snd p < length (mazeList m)
      then (mazeList m ! y)[fst p := f (tile m p)] else mazeList m ! y)"
  by (cases "snd p < length (mazeList m)") (auto simp: upd_tile_def nth_list_update list_update_beyond)

lemma length_mazeList_upd [simp]: "length (mazeList (upd_tile m p f)) = length (mazeList m)"
  by (simp add: upd_tile_def)

lemma valid_ref_upd [simp]: "valid_ref (upd_tile m p f) q = valid_ref m q"
  by (auto simp: valid_ref_def row_upd)

lemma tile_upd: "tile (upd_tile m p f) q = (if p = q \<and> valid_ref m p then f (tile m p) else tile m q)"
  by (cases "fst p < length (mazeList m ! snd p)")
     (auto simp: valid_ref_def tile_def row_upd nth_list_update prod_eq_iff list_update_beyond)

subsection \<open>Formation: populating the grid, the frontier loop, the active-list loop\<close>

definition populate :: "Maze \<Rightarrow> Maze" where
  "populate m =
     m\<lparr>mazeList := mazeList m @
        map (\<lambda>indexY. map (\<lambda>indexX. new_MazeTile indexX indexY False) [0..<sizeX m])
            [0..<sizeY m]\<rparr>"

definition choose_startingtile :: "Maze \<Rightarrow> rng \<Rightarrow> (error + pos) \<times> rng" where
  "choose_startingtile m r =
     (case rnd_choice (mazeList_refs m) r of
        (Inl e, r1) \<Rightarrow> (Inl e, r1)
      | (Inr row, r1) \<Rightarrow> rnd_choice row r1)"

definition set_workedOn :: "Maze \<Rightarrow> pos \<Rightarrow> Maze" where
  "set_workedOn m p = upd_tile m p (\<lambda>t. t\<lparr>workedOn := True\<rparr>)"

definition neighbours_of :: "Maze \<Rightarrow> pos \<Rightarrow> pos list" where
  "neighbours_of m t = getNextTiles m (coordinateX (tile m t)) (coordinateY (tile m t))"

definition simple_body ::
  "Maze \<Rightarrow> pos list \<Rightarrow> rng \<Rightarrow> (error + unit) \<times> Maze \<times> pos list \<times> rng" where
  "simple_body m frontList r =
     (case rnd_shuffle frontList r of (shuffled, r1) \<Rightarrow>
      if shuffled = [] then (Inl IndexError, m, shuffled, r1)
      else
        let nextTile = last shuffled;
            frontList1 = butlast shuffled;
            m1 = set_workedOn m nextTile;
            tempList = neighbours_of m1 nextTile;
            workedOnList = filter (\<lambda>t. workedOn (tile m1 t)) tempList;
            newFrontTiles =
              filter (\<lambda>t. \<not> workedOn (tile m1 t) \<and> t \<notin> set frontList1) tempList;
            frontList2 = frontList1 @ newFrontTiles
        in if length workedOnList > 1 then
             (case rnd_choice workedOnList r1 of
                (Inl e, r2) \<Rightarrow> (Inl e, m1, frontList2, r2)
              | (Inr connectTile, r2) \<Rightarrow>
                  (Inr (), connectTiles m1 nextTile connectTile, frontList2, r2))
           else
             (case workedOnList of
                [] \<Rightarrow> (Inl IndexError, m1, frontList2, r1)
              | connectTile # _ \<Rightarrow>
                  (Inr (), connectTiles m1 nextTile connectTile, frontList2, r1)))"

definition untouched :: "Maze \<Rightarrow> pos set" where
  "untouched m = {p. valid_ref m p \<and> \<not> workedOn (tile m p)}"

lemma finite_valid_refs: "finite {p. valid_ref m p}"
proof -
  have "{p. valid_ref m p} \<subseteq>
        (\<Union>y\<in>{..<length (mazeList m)}. (\<lambda>x. (x, y)) ` {..<length (mazeList m ! y)})"
    by (auto simp: valid_ref_def image_iff)
  then show ?thesis by (rule finite_subset) simp
qed

lemma finite_untouched [simp]: "finite (untouched m)"
  by (rule finite_subset [OF _ finite_valid_refs [of m]]) (auto simp: untouched_def)

lemma valid_ref_append_connection [simp]: "valid_ref (append_connection m p d) q = valid_ref m q"
  by (simp add: append_connection_def)

lemma workedOn_append_connection [simp]:
  "workedOn (tile (append_connection m p d) q) = workedOn (tile m q)"
  by (simp add: append_connection_def tile_upd)

lemma valid_ref_connectTiles [simp]: "valid_ref (connectTiles m a b) q = valid_ref m q"
  by (simp add: connectTiles_def Let_def)

lemma workedOn_connectTiles [simp]:
  "workedOn (tile (connectTiles m a b) q) = workedOn (tile m q)"
  by (simp add: connectTiles_def Let_def)

lemma untouched_connectTiles [simp]: "untouched (connectTiles m a b) = untouched m"
  by (simp add: untouched_def)

lemma untouched_set_workedOn: "untouched (set_workedOn m p) = untouched m - {p}"
  by (auto simp: untouched_def set_workedOn_def tile_upd)

lemma getNextTiles_valid: "q \<in> set (getNextTiles m X Y) \<Longrightarrow> valid_ref m q"
  by (auto simp: getNextTiles_def split: if_splits)

lemma shuffle_from_props:
  "i < length xs \<Longrightarrow>
   length (fst (shuffle_from i xs r)) = length xs \<and> set (fst (shuffle_from i xs r)) = set xs \<and>
   (distinct (fst (shuffle_from i xs r)) \<longleftrightarrow> distinct xs)"
proof (induction i arbitrary: xs r)
  case 0
  then show ?case by simp
next
  case (Suc i)
  let ?j = "shd r mod Suc (Suc i)"
  have j: "?j < length xs" using Suc.prems by (simp add: less_le_trans [OF mod_less_divisor] Suc_leI)
  let ?ys = "xs[Suc i := xs ! ?j, ?j := xs ! Suc i]"
  have "i < length ?ys" using Suc.prems by simp
  from Suc.IH [OF this, of "stl r"] j Suc.prems show ?case
    by (simp add: Let_def)
qed

lemma rnd_shuffle_props:
  "length (fst (rnd_shuffle xs r)) = length xs \<and> set (fst (rnd_shuffle xs r)) = set xs \<and>
   (distinct (fst (rnd_shuffle xs r)) \<longleftrightarrow> distinct xs)"
proof (cases xs)
  case Nil
  then show ?thesis by (simp add: rnd_shuffle_def)
next
  case (Cons a list)
  then have "length xs - 1 < length xs" by simp
  from shuffle_from_props [OF this] show ?thesis by (simp add: rnd_shuffle_def)
qed

definition frontier_rest :: "Maze \<Rightarrow> pos list \<Rightarrow> pos set" where
  "frontier_rest m frontList = untouched m - set frontList"

lemma finite_frontier_rest [simp]: "finite (frontier_rest m F)"
  by (simp add: frontier_rest_def)

lemma simple_body_decreases:
  assumes "simple_body m F r = (Inr u, m', F', r')"
  shows "card (frontier_rest m' F') < card (frontier_rest m F) \<or>
         card (frontier_rest m' F') = card (frontier_rest m F) \<and> length F' < length F"
proof -
  obtain sh r1 where sh: "rnd_shuffle F r = (sh, r1)" by (cases "rnd_shuffle F r")
  from rnd_shuffle_props [of F r] sh
  have len: "length sh = length F" and st: "set sh = set F" by simp_all
  from assms sh have ne: "sh \<noteq> []" by (auto simp: simple_body_def)
  define nextTile where "nextTile = last sh"
  define m1 where "m1 = set_workedOn m nextTile"
  define new where "new = filter (\<lambda>t. \<not> workedOn (tile m1 t) \<and> t \<notin> set (butlast sh))
                             (neighbours_of m1 nextTile)"
  from assms sh ne have F': "F' = butlast sh @ new"
    and unt: "untouched m' = untouched m1"
    by (auto simp: simple_body_def Let_def nextTile_def m1_def new_def
             split: if_splits prod.splits sum.splits list.splits)
  have unt1: "untouched m1 = untouched m - {nextTile}"
    by (simp add: m1_def untouched_set_workedOn)
  have setF: "set F = insert nextTile (set (butlast sh))"
    using ne st by (metis append_butlast_last_id nextTile_def insert_is_Un list.simps(15) set_append
        sup_commute empty_set sup_bot.right_neutral)
  have sub: "frontier_rest m' F' \<subseteq> frontier_rest m F"
    using unt unt1 setF F' by (auto simp: frontier_rest_def)
  show ?thesis
  proof (cases "new = []")
    case True
    moreover have "0 < length F" using len ne by (cases sh) auto
    ultimately have "length F' < length F" using F' len by simp
    moreover have "card (frontier_rest m' F') \<le> card (frontier_rest m F)"
      by (rule card_mono [OF _ sub]) simp
    ultimately show ?thesis by linarith
  next
    case False
    then obtain t where t: "t \<in> set new" by (cases new) auto
    then have "valid_ref m1 t" "\<not> workedOn (tile m1 t)" "t \<notin> set (butlast sh)"
      by (auto simp: new_def neighbours_of_def dest: getNextTiles_valid)
    then have "t \<in> untouched m1" by (simp add: untouched_def)
    then have "t \<in> frontier_rest m F" using unt1 setF \<open>t \<notin> set (butlast sh)\<close>
      by (auto simp: frontier_rest_def)
    moreover have "t \<notin> frontier_rest m' F'" using t F' by (simp add: frontier_rest_def)
    ultimately have "frontier_rest m' F' \<subset> frontier_rest m F" using sub by blast
    then show ?thesis by (simp add: psubset_card_mono)
  qed
qed

function simple_loop :: "Maze \<Rightarrow> pos list \<Rightarrow> rng \<Rightarrow> (error + unit) \<times> Maze \<times> rng" where
  "simple_loop m frontList r =
     (if length frontList > 0 then
        (case simple_body m frontList r of
           (Inl e, m', frontList', r') \<Rightarrow> (Inl e, m', r')
         | (Inr u, m', frontList', r') \<Rightarrow> simple_loop m' frontList' r')
      else (Inr (), m, r))"
  by pat_completeness auto
termination
proof (relation "measures [\<lambda>(m, F, r). card (frontier_rest m F), \<lambda>(m, F, r). length F]")
  show "wf (measures [\<lambda>(m, F, r). card (frontier_rest m F), \<lambda>(m, F, r). length F])"
    by simp
next
qed (auto dest: simple_body_decreases [OF sym])

definition select_tile :: "int \<Rightarrow> int \<Rightarrow> pos list \<Rightarrow> rng \<Rightarrow> (error + pos) \<times> rng" where
  "select_tile weightHigh weightLow choiceList r =
     (case rnd_random r of (k, r1) \<Rightarrow>
      let choice = times_100 k in
      if choice \<le> real_of_int weightLow then
        (if choiceList = [] then (Inl IndexError, r1) else (Inr (last choiceList), r1))
      else if real_of_int weightLow < choice \<and> choice < real_of_int weightHigh then
        rnd_choice choiceList r1
      else
        (if choiceList = [] then (Inl IndexError, r1) else (Inr (hd choiceList), r1)))"

definition grow_body ::
  "int \<Rightarrow> int \<Rightarrow> Maze \<Rightarrow> pos list \<Rightarrow> rng \<Rightarrow> (error + unit) \<times> Maze \<times> pos list \<times> rng" where
  "grow_body weightHigh weightLow m choiceList r =
     (case select_tile weightHigh weightLow choiceList r of
        (Inl e, r2) \<Rightarrow> (Inl e, m, choiceList, r2)
      | (Inr nextTile, r2) \<Rightarrow>
          let neiList = filter (\<lambda>t. \<not> workedOn (tile m t)) (neighbours_of m nextTile) in
          if length neiList = 0 then
            (if nextTile \<in> set choiceList then (Inr (), m, remove1 nextTile choiceList, r2)
             else (Inl ValueError, m, choiceList, r2))
          else
            (case rnd_choice neiList r2 of
               (Inl e, r3) \<Rightarrow> (Inl e, m, choiceList, r3)
             | (Inr connectTile, r3) \<Rightarrow>
                 let m1 = set_workedOn m connectTile in
                 (Inr (), connectTiles m1 nextTile connectTile, choiceList @ [connectTile], r3)))"

lemma rnd_choice_mem: "rnd_choice xs r = (Inr x, r') \<Longrightarrow> x \<in> set xs"
  by (auto simp: rnd_choice_def split: if_splits)

lemma select_tile_mem: "select_tile wh wl C r = (Inr t, r') \<Longrightarrow> t \<in> set C"
  by (auto simp: select_tile_def Let_def split: prod.splits if_splits dest: rnd_choice_mem)

lemma grow_body_decreases:
  assumes "grow_body wh wl m C r = (Inr u, m', C', r')"
  shows "card (untouched m') < card (untouched m) \<or>
         card (untouched m') = card (untouched m) \<and> length C' < length C"
proof -
  obtain t r2 where sel: "select_tile wh wl C r = (Inr t, r2)"
    using assms by (auto simp: grow_body_def split: prod.splits sum.splits)
  have tC: "t \<in> set C" by (rule select_tile_mem [OF sel])
  define nei where "nei = filter (\<lambda>t. \<not> workedOn (tile m t)) (neighbours_of m t)"
  show ?thesis
  proof (cases "nei = []")
    case True
    with assms sel tC have "m' = m" "C' = remove1 t C"
      by (auto simp: grow_body_def nei_def)
    moreover have "length (remove1 t C) < length C"
      using tC length_pos_if_in_set [OF tC] by (simp add: length_remove1)
    ultimately show ?thesis by simp
  next
    case False
    with assms sel obtain c r3 where ch: "rnd_choice nei r2 = (Inr c, r3)"
      and m': "m' = connectTiles (set_workedOn m c) t c"
      by (auto simp: grow_body_def nei_def Let_def split: prod.splits sum.splits)
    from rnd_choice_mem [OF ch] have "c \<in> untouched m"
      by (auto simp: nei_def untouched_def neighbours_of_def dest: getNextTiles_valid)
    then have "untouched m' \<subset> untouched m" using m' by (auto simp: untouched_set_workedOn)
    then show ?thesis by (simp add: psubset_card_mono)
  qed
qed

function grow_loop ::
  "int \<Rightarrow> int \<Rightarrow> Maze \<Rightarrow> pos list \<Rightarrow> rng \<Rightarrow> (error + unit) \<times> Maze \<times> rng" where
  "grow_loop weightHigh weightLow m choiceList r =
     (if length choiceList > 0 then
        (case grow_body weightHigh weightLow m choiceList r of
           (Inl e, m', choiceList', r') \<Rightarrow> (Inl e, m', r')
         | (Inr u, m', choiceList', r') \<Rightarrow> grow_loop weightHigh weightLow m' choiceList' r')
      else (Inr (), m, r))"
  by pat_completeness auto
termination
proof (relation "measures [\<lambda>(wh, wl, m, C, r). card (untouched m), \<lambda>(wh, wl, m, C, r). length C]")
qed (auto dest: grow_body_decreases [OF sym])

definition already_done :: error where
  "already_done = MazeError ''Maze is already done'' 3"

definition not_formed :: error where
  "not_formed = MazeError ''Maze needs to be formed first'' 4"

definition finish_formation ::
  "(error + unit) \<times> Maze \<times> rng \<Rightarrow> ((error + bool) \<times> Maze \<times> rng) option" where
  "finish_formation looped =
     (case looped of
        (Inl e, m, r) \<Rightarrow> Some (Inl e, m, r)
      | (Inr u, m, r) \<Rightarrow>
          (case makeEntryandExit m r of
             None \<Rightarrow> None
           | Some (Inl e, m', r') \<Rightarrow> Some (Inl e, m', r')
           | Some (Inr b, m', r') \<Rightarrow> Some (Inr True, m'\<lparr>mazeIsDone := True\<rparr>, r')))"

definition makeMazeSimple :: "Maze \<Rightarrow> rng \<Rightarrow> ((error + bool) \<times> Maze \<times> rng) option" where
  "makeMazeSimple m r =
     (if mazeIsDone m then Some (Inl already_done, m, r)
      else
        let m1 = populate m in
        case choose_startingtile m1 r of
          (Inl e, r1) \<Rightarrow> Some (Inl e, m1, r1)
        | (Inr startingtile, r1) \<Rightarrow>
            let m2 = set_workedOn m1 startingtile;
                frontList = neighbours_of m2 startingtile
            in finish_formation (simple_loop m2 frontList r1))"

definition makeMazeGrowTree ::
  "Maze \<Rightarrow> int \<Rightarrow> int \<Rightarrow> rng \<Rightarrow> ((error + bool) \<times> Maze \<times> rng) option" where
  "makeMazeGrowTree m weightHigh weightLow r =
     (if mazeIsDone m then Some (Inl already_done, m, r)
      else
        let m1 = populate m in
        case choose_startingtile m1 r of
          (Inl e, r1) \<Rightarrow> Some (Inl e, m1, r1)
        | (Inr startingtile, r1) \<Rightarrow>
            let m2 = set_workedOn m1 startingtile;
                choiceList = [startingtile]
            in finish_formation (grow_loop weightHigh weightLow m2 choiceList r1))"

subsection \<open>Braiding\<close>

definition remove_value :: "'a \<Rightarrow> 'a list \<Rightarrow> error + 'a list" where
  "remove_value x xs = (if x \<in> set xs then Inr (remove1 x xs) else Inl ValueError)"

fun remove_values :: "'a list \<Rightarrow> 'a list \<Rightarrow> error + 'a list" where
  "remove_values [] directionList = Inr directionList"
| "remove_values (connection # rest) directionList =
     (case remove_value connection directionList of
        Inl e \<Rightarrow> Inl e
      | Inr directionList' \<Rightarrow> remove_values rest directionList')"

fun try_directions :: "Maze \<Rightarrow> pos \<Rightarrow> direction list \<Rightarrow> (error + unit) \<times> Maze" where
  "try_directions m t [] = (Inr (), m)"
| "try_directions m t (direction # rest) =
     (case connectTilesWithString m t direction of
        (Inr b, m') \<Rightarrow> (Inr (), m')
      | (Inl (MazeError s errorcode), m') \<Rightarrow>
          if errorcode = 2 then try_directions m' t rest
          else (Inl (MazeError s errorcode), m')
      | (Inl e, m') \<Rightarrow> (Inl e, m'))"

definition add_connection ::
  "Maze \<Rightarrow> pos \<Rightarrow> error + direction list \<Rightarrow> rng \<Rightarrow> (error + unit) \<times> Maze \<times> rng" where
  "add_connection m t candidates r =
     (case candidates of
        Inl e \<Rightarrow> (Inl e, m, r)
      | Inr directionList \<Rightarrow>
          (case rnd_shuffle directionList r of (shuffled, r1) \<Rightarrow>
           case try_directions m t shuffled of (res, m') \<Rightarrow> (res, m', r1)))"

definition braid_dead_end :: "pos \<Rightarrow> Maze \<Rightarrow> rng \<Rightarrow> (error + unit) \<times> Maze \<times> rng" where
  "braid_dead_end t m r =
     (if length (connectTo (tile m t)) = 1 then
        add_connection m t
          (remove_value (connectTo (tile m t) ! 0) [North, South, West, East]) r
      else (Inr (), m, r))"

definition braid_loop_tile :: "int \<Rightarrow> pos \<Rightarrow> Maze \<Rightarrow> rng \<Rightarrow> (error + unit) \<times> Maze \<times> rng" where
  "braid_loop_tile weightBraid t m r =
     (case rnd_random r of (k, r1) \<Rightarrow>
      if real_of_int weightBraid \<ge> times_100 k then
        add_connection m t
          (remove_values (connectTo (tile m t)) [North, South, West, East]) r1
      else (Inr (), m, r1))"

fun for_tiles ::
  "(pos \<Rightarrow> Maze \<Rightarrow> rng \<Rightarrow> (error + unit) \<times> Maze \<times> rng) \<Rightarrow> pos list \<Rightarrow> Maze \<Rightarrow> rng \<Rightarrow>
   (error + unit) \<times> Maze \<times> rng" where
  "for_tiles f [] m r = (Inr (), m, r)"
| "for_tiles f (t # ts) m r =
     (case f t m r of
        (Inl e, m', r') \<Rightarrow> (Inl e, m', r')
      | (Inr u, m', r') \<Rightarrow> for_tiles f ts m' r')"

definition makeMazeBraided :: "Maze \<Rightarrow> int \<Rightarrow> rng \<Rightarrow> (error + bool) \<times> Maze \<times> rng" where
  "makeMazeBraided m weightBraid r =
     (if \<not> mazeIsDone m then (Inl not_formed, m, r)
      else if weightBraid < - 1 \<or> weightBraid > 100 then
        (Inl (MazeError ''weightBraid has to be >= -1'' 1), m, r)
      else
        (case for_tiles (if weightBraid = - 1 then braid_dead_end
                         else braid_loop_tile weightBraid)
                (concat (mazeList_refs m)) m r of
           (Inl e, m', r') \<Rightarrow> (Inl e, m', r')
         | (Inr u, m', r') \<Rightarrow> (Inr True, m', r')))"

subsection \<open>Export projection\<close>

definition wall_grid :: "Maze \<Rightarrow> 'c \<Rightarrow> 'c list list" where
  "wall_grid m c = replicate (sizeY m * 2 + 1) (replicate (sizeX m * 2 + 1) c)"

definition set_cell :: "'c list list \<Rightarrow> nat \<times> nat \<Rightarrow> 'c \<Rightarrow> 'c list list" where
  "set_cell g p v = g[snd p := (g ! snd p)[fst p := v]]"

definition cell_at :: "'c list list \<Rightarrow> nat \<times> nat \<Rightarrow> 'c" where
  "cell_at g p = g ! snd p ! fst p"

definition display_x :: "MazeTile \<Rightarrow> nat" where
  "display_x t = (coordinateX t + 1) * 2 - 1"

definition display_y :: "MazeTile \<Rightarrow> nat" where
  "display_y t = (coordinateY t + 1) * 2 - 1"

definition display_target :: "nat \<Rightarrow> nat \<Rightarrow> direction \<Rightarrow> nat \<times> nat" where
  "display_target x y d =
     (case d of North \<Rightarrow> (x, y - 1) | South \<Rightarrow> (x, y + 1)
              | West \<Rightarrow> (x - 1, y) | East \<Rightarrow> (x + 1, y))"

definition on_border :: "'c list list \<Rightarrow> nat \<times> nat \<Rightarrow> bool" where
  "on_border g p \<longleftrightarrow>
     snd p = 0 \<or> snd p = length g - 1 \<or> fst p = 0 \<or> fst p = length (g ! 0) - 1"

definition list_mark_direction ::
  "MazeTile \<Rightarrow> char list list \<Rightarrow> direction \<Rightarrow> char list list" where
  "list_mark_direction t maze_list d =
     (let p = display_target (display_x t) (display_y t) d in
      if is_entry t \<noteq> None \<and> on_border maze_list p
      then set_cell maze_list p (if is_entry t = Some True then CHR ''S'' else CHR ''E'')
      else set_cell maze_list p CHR '' '')"

definition list_mark_tile :: "char list list \<Rightarrow> MazeTile \<Rightarrow> char list list" where
  "list_mark_tile maze_list t =
     foldl (list_mark_direction t)
       (set_cell maze_list (display_x t, display_y t) CHR '' '') (connectTo t)"

definition get_maze_as_list :: "Maze \<Rightarrow> error + char list list" where
  "get_maze_as_list m =
     (if \<not> mazeIsDone m then Inl not_formed
      else Inr (foldl list_mark_tile (wall_grid m CHR ''#'') (concat (mazeList m))))"

datatype cell = Sym char | Num int

type_synonym dpos = "int \<times> int"

definition dist_mark_direction ::
  "MazeTile \<Rightarrow> cell list list \<times> dpos option \<Rightarrow> direction \<Rightarrow> cell list list \<times> dpos option" where
  "dist_mark_direction t st d =
     (case st of (maze_list, start_pos) \<Rightarrow>
      let p = display_target (display_x t) (display_y t) d in
      if is_entry t \<noteq> None \<and> on_border maze_list p
      then (if is_entry t = Some True
            then (set_cell maze_list p (Sym CHR ''S''), Some (int (fst p), int (snd p)))
            else (set_cell maze_list p (Sym CHR ''E''), start_pos))
      else (set_cell maze_list p (Sym CHR '' ''), start_pos))"

definition dist_mark_tile ::
  "cell list list \<times> dpos option \<Rightarrow> MazeTile \<Rightarrow> cell list list \<times> dpos option" where
  "dist_mark_tile st t =
     (case st of (maze_list, start_pos) \<Rightarrow>
      foldl (dist_mark_direction t)
        (set_cell maze_list (display_x t, display_y t) (Sym CHR '' ''), start_pos)
        (connectTo t))"

definition offsets :: "(int \<times> int) list" where
  "offsets = [(- 1, 0), (1, 0), (0, - 1), (0, 1)]"

definition in_grid :: "'c list list \<Rightarrow> dpos \<Rightarrow> bool" where
  "in_grid g p \<longleftrightarrow>
     0 \<le> fst p \<and> fst p < int (length (g ! 0)) \<and> 0 \<le> snd p \<and> snd p < int (length g)"

definition dcell_at :: "'c list list \<Rightarrow> dpos \<Rightarrow> 'c" where
  "dcell_at g p = g ! nat (snd p) ! nat (fst p)"

definition dist_visit ::
  "cell list list \<Rightarrow> dpos \<Rightarrow> int \<Rightarrow> dpos set \<times> (dpos \<times> int) list \<Rightarrow> int \<times> int \<Rightarrow>
   dpos set \<times> (dpos \<times> int) list" where
  "dist_visit maze_list xy d st off =
     (case st of (visited, queue) \<Rightarrow>
      let new = (fst xy + snd off, snd xy + fst off) in
      if in_grid maze_list new \<and> dcell_at maze_list new = Sym CHR '' '' \<and> new \<notin> visited
      then (insert new visited, queue @ [(new, d + 1)])
      else (visited, queue))"

definition unvisited :: "'c list list \<Rightarrow> dpos set \<Rightarrow> dpos set" where
  "unvisited g visited = {p. in_grid g p} - visited"

lemma finite_in_grid: "finite {p. in_grid g p}"
proof -
  have "{p. in_grid g p} \<subseteq> {0..<int (length (g ! 0))} \<times> {0..<int (length g)}"
    by (auto simp: in_grid_def)
  then show ?thesis by (rule finite_subset) simp
qed

lemma finite_unvisited [simp]: "finite (unvisited g visited)"
  by (simp add: unvisited_def finite_in_grid)

lemma dist_visit_measure:
  "dist_visit g xy d (visited, queue) off = (visited', queue') \<Longrightarrow>
   card (unvisited g visited') + length queue' = card (unvisited g visited) + length queue"
proof (cases "in_grid g (fst xy + snd off, snd xy + fst off) \<and>
              dcell_at g (fst xy + snd off, snd xy + fst off) = Sym CHR '' '' \<and>
              (fst xy + snd off, snd xy + fst off) \<notin> visited")
  case True
  assume a: "dist_visit g xy d (visited, queue) off = (visited', queue')"
  let ?n = "(fst xy + snd off, snd xy + fst off)"
  from True a have v: "visited' = insert ?n visited" and q: "queue' = queue @ [(?n, d + 1)]"
    by (auto simp: dist_visit_def Let_def)
  from True have mem: "?n \<in> unvisited g visited" by (simp add: unvisited_def)
  have "unvisited g visited' = unvisited g visited - {?n}" by (auto simp: v unvisited_def)
  then have "card (unvisited g visited') = card (unvisited g visited) - 1"
    using mem by simp
  moreover have "card (unvisited g visited) > 0" using mem by (auto simp: card_gt_0_iff)
  ultimately show ?thesis using q by simp
next
  case False
  assume "dist_visit g xy d (visited, queue) off = (visited', queue')"
  with False show ?thesis by (auto simp: dist_visit_def Let_def)
qed

lemma dist_visit_fold_measure:
  "foldl (dist_visit g xy d) (visited, queue) offs = (visited', queue') \<Longrightarrow>
   card (unvisited g visited') + length queue' = card (unvisited g visited) + length queue"
proof (induction offs arbitrary: visited queue)
  case Nil
  then show ?case by simp
next
  case (Cons off offs)
  obtain v1 q1 where s: "dist_visit g xy d (visited, queue) off = (v1, q1)"
    by (cases "dist_visit g xy d (visited, queue) off")
  from Cons.prems s have "foldl (dist_visit g xy d) (v1, q1) offs = (visited', queue')" by simp
  from Cons.IH [OF this] dist_visit_measure [OF s] show ?case by simp
qed

function dist_bfs ::
  "cell list list \<Rightarrow> (dpos \<times> int) list \<Rightarrow> dpos set \<Rightarrow> (dpos \<rightharpoonup> int) \<Rightarrow> (dpos \<rightharpoonup> int)" where
  "dist_bfs maze_list queue visited distances =
     (case queue of
        [] \<Rightarrow> distances
      | (xy, d) # rest \<Rightarrow>
          (case foldl (dist_visit maze_list xy d) (visited, rest) offsets of
             (visited', queue') \<Rightarrow>
               dist_bfs maze_list queue' visited' (distances(xy \<mapsto> d))))"
  by pat_completeness auto
termination
proof (relation "measure (\<lambda>(g, queue, visited, distances). card (unvisited g visited) + length queue)")
qed (auto dest!: dist_visit_fold_measure [OF sym])

definition fill_distance :: "(dpos \<rightharpoonup> int) \<Rightarrow> nat \<Rightarrow> nat \<times> cell \<Rightarrow> cell" where
  "fill_distance distances y xc =
     (case xc of (x, c) \<Rightarrow>
      case distances (int x, int y) of
        Some d \<Rightarrow> Num d
      | None \<Rightarrow> if c \<noteq> Sym CHR ''#'' \<and> c \<noteq> Sym CHR ''E'' then Num (- 1) else c)"

definition fill_distances :: "(dpos \<rightharpoonup> int) \<Rightarrow> cell list list \<Rightarrow> cell list list" where
  "fill_distances distances maze_list =
     map (\<lambda>(y, row). map (fill_distance distances y) (enumerate 0 row)) (enumerate 0 maze_list)"

definition no_start :: error where
  "no_start = MazeError ''Could not find start position'' 5"

definition get_maze_with_distances :: "Maze \<Rightarrow> error + cell list list" where
  "get_maze_with_distances m =
     (if \<not> mazeIsDone m then Inl not_formed
      else
        case foldl dist_mark_tile (wall_grid m (Sym CHR ''#''), None) (concat (mazeList m)) of
          (maze_list, None) \<Rightarrow> Inl no_start
        | (maze_list, Some start_pos) \<Rightarrow>
            Inr (fill_distances
                   (dist_bfs maze_list [(start_pos, 0)] {start_pos} Map.empty) maze_list))"

record detail =
  d_index :: char
  d_distance :: "int option"
  d_N :: bool
  d_S :: bool
  d_W :: bool
  d_E :: bool

definition wall_detail :: detail where
  "wall_detail = \<lparr>d_index = CHR ''#'', d_distance = None,
                   d_N = False, d_S = False, d_W = False, d_E = False\<rparr>"

definition set_index :: "detail list list \<Rightarrow> nat \<times> nat \<Rightarrow> char \<Rightarrow> detail list list" where
  "set_index g p c = set_cell g p ((cell_at g p)\<lparr>d_index := c\<rparr>)"

definition is_border_cell_for_entry_exit :: "Maze \<Rightarrow> MazeTile \<Rightarrow> direction \<Rightarrow> bool" where
  "is_border_cell_for_entry_exit m t d \<longleftrightarrow>
     is_entry t \<noteq> None \<and>
     (if d = North \<and> coordinateY t = 0 then True
      else if d = South \<and> coordinateY t = sizeY m - 1 then True
      else if d = West \<and> coordinateX t = 0 then True
      else if d = East \<and> coordinateX t = sizeX m - 1 then True
      else False)"

definition detail_mark_direction ::
  "Maze \<Rightarrow> MazeTile \<Rightarrow> detail list list \<times> dpos option \<Rightarrow> direction \<Rightarrow>
   detail list list \<times> dpos option" where
  "detail_mark_direction m t st d =
     (case st of (grid, start_pos_on_grid) \<Rightarrow>
      let p = display_target (display_x t) (display_y t) d in
      if \<not> (fst p < sizeX m * 2 + 1 \<and> snd p < sizeY m * 2 + 1) then (grid, start_pos_on_grid)
      else if is_border_cell_for_entry_exit m t d then
        (if is_entry t = Some True then
           (set_index grid p CHR ''S'',
            if start_pos_on_grid = None then Some (int (fst p), int (snd p))
            else start_pos_on_grid)
         else (set_index grid p CHR ''E'', start_pos_on_grid))
      else if d_index (cell_at grid p) = CHR ''#'' then
        (set_index grid p CHR '' '', start_pos_on_grid)
      else (grid, start_pos_on_grid))"

definition detail_mark_tile ::
  "Maze \<Rightarrow> detail list list \<times> dpos option \<Rightarrow> MazeTile \<Rightarrow> detail list list \<times> dpos option" where
  "detail_mark_tile m st t =
     (case st of (grid, start_pos_on_grid) \<Rightarrow>
      foldl (detail_mark_direction m t)
        (set_index grid (display_x t, display_y t) CHR '' '', start_pos_on_grid)
        (connectTo t))"

definition scan_for_start :: "detail list list \<Rightarrow> dpos option" where
  "scan_for_start grid =
     (case filter (\<lambda>(c, r). d_index (cell_at grid (c, r)) = CHR ''S'')
             (concat (map (\<lambda>r. map (\<lambda>c. (c, r)) [0..<length (grid ! 0)]) [0..<length grid])) of
        [] \<Rightarrow> None
      | (c, r) # _ \<Rightarrow> Some (int c, int r))"

definition detail_visit ::
  "detail list list \<Rightarrow> dpos \<Rightarrow> int \<Rightarrow> dpos set \<times> (dpos \<times> int) list \<times> (dpos \<rightharpoonup> int) \<Rightarrow>
   int \<times> int \<Rightarrow> dpos set \<times> (dpos \<times> int) list \<times> (dpos \<rightharpoonup> int)" where
  "detail_visit grid xy d st off =
     (case st of (visited_bfs, queue, bfs_distances) \<Rightarrow>
      let next = (fst xy + snd off, snd xy + fst off) in
      if in_grid grid next \<and>
         (d_index (dcell_at grid next) = CHR '' '' \<or> d_index (dcell_at grid next) = CHR ''E'') \<and>
         next \<notin> visited_bfs
      then (insert next visited_bfs, queue @ [(next, d + 1)], bfs_distances(next \<mapsto> d + 1))
      else (visited_bfs, queue, bfs_distances))"

lemma detail_visit_measure:
  "detail_visit g xy d (visited, queue, ds) off = (visited', queue', ds') \<Longrightarrow>
   card (unvisited g visited') + length queue' = card (unvisited g visited) + length queue"
proof (cases "in_grid g (fst xy + snd off, snd xy + fst off) \<and>
              (d_index (dcell_at g (fst xy + snd off, snd xy + fst off)) = CHR '' '' \<or>
               d_index (dcell_at g (fst xy + snd off, snd xy + fst off)) = CHR ''E'') \<and>
              (fst xy + snd off, snd xy + fst off) \<notin> visited")
  case True
  assume a: "detail_visit g xy d (visited, queue, ds) off = (visited', queue', ds')"
  let ?n = "(fst xy + snd off, snd xy + fst off)"
  from True a have v: "visited' = insert ?n visited" and q: "queue' = queue @ [(?n, d + 1)]"
    by (auto simp: detail_visit_def Let_def)
  from True have mem: "?n \<in> unvisited g visited" by (simp add: unvisited_def)
  have "unvisited g visited' = unvisited g visited - {?n}" by (auto simp: v unvisited_def)
  then have "card (unvisited g visited') = card (unvisited g visited) - 1"
    using mem by simp
  moreover have "card (unvisited g visited) > 0" using mem by (auto simp: card_gt_0_iff)
  ultimately show ?thesis using q by simp
next
  case False
  assume "detail_visit g xy d (visited, queue, ds) off = (visited', queue', ds')"
  with False show ?thesis by (auto simp: detail_visit_def Let_def)
qed

lemma detail_visit_fold_measure:
  "foldl (detail_visit g xy d) (visited, queue, ds) offs = (visited', queue', ds') \<Longrightarrow>
   card (unvisited g visited') + length queue' = card (unvisited g visited) + length queue"
proof (induction offs arbitrary: visited queue ds)
  case Nil
  then show ?case by simp
next
  case (Cons off offs)
  obtain v1 q1 ds1 where s: "detail_visit g xy d (visited, queue, ds) off = (v1, q1, ds1)"
    by (cases "detail_visit g xy d (visited, queue, ds) off")
  from Cons.prems s have "foldl (detail_visit g xy d) (v1, q1, ds1) offs = (visited', queue', ds')"
    by simp
  from Cons.IH [OF this] detail_visit_measure [OF s] show ?case by simp
qed

function detail_bfs ::
  "detail list list \<Rightarrow> (dpos \<times> int) list \<Rightarrow> dpos set \<Rightarrow> (dpos \<rightharpoonup> int) \<Rightarrow> (dpos \<rightharpoonup> int)" where
  "detail_bfs grid queue visited_bfs bfs_distances =
     (case queue of
        [] \<Rightarrow> bfs_distances
      | (xy, d) # rest \<Rightarrow>
          (case foldl (detail_visit grid xy d) (visited_bfs, rest, bfs_distances) offsets of
             (visited', queue', distances') \<Rightarrow> detail_bfs grid queue' visited' distances'))"
  by pat_completeness auto
termination
proof (relation "measure (\<lambda>(g, queue, visited, distances). card (unvisited g visited) + length queue)")
qed (auto dest!: detail_visit_fold_measure [OF sym])

definition path_index :: "detail list list \<Rightarrow> nat \<times> nat \<Rightarrow> bool" where
  "path_index grid p \<longleftrightarrow> d_index (cell_at grid p) \<in> {CHR '' '', CHR ''S'', CHR ''E''}"

definition fill_detail :: "detail list list \<Rightarrow> (dpos \<rightharpoonup> int) \<Rightarrow> nat \<Rightarrow> nat \<Rightarrow> detail" where
  "fill_detail grid bfs_distances r_idx c_idx =
     (let cell_dict = cell_at grid (c_idx, r_idx);
          grid_rows = length grid;
          grid_cols = length (grid ! 0)
      in cell_dict
         \<lparr>d_distance :=
            (case bfs_distances (int c_idx, int r_idx) of
               Some d \<Rightarrow> Some d
             | None \<Rightarrow> if d_index cell_dict = CHR '' '' then Some (- 1)
                         else d_distance cell_dict),
          d_N := (if r_idx > 0 \<and> path_index grid (c_idx, r_idx - 1) then True
                  else d_N cell_dict),
          d_S := (if r_idx < grid_rows - 1 \<and> path_index grid (c_idx, r_idx + 1) then True
                  else d_S cell_dict),
          d_W := (if c_idx > 0 \<and> path_index grid (c_idx - 1, r_idx) then True
                  else d_W cell_dict),
          d_E := (if c_idx < grid_cols - 1 \<and> path_index grid (c_idx + 1, r_idx) then True
                  else d_E cell_dict)\<rparr>)"

definition fill_details :: "detail list list \<Rightarrow> (dpos \<rightharpoonup> int) \<Rightarrow> detail list list" where
  "fill_details grid bfs_distances =
     map (\<lambda>r_idx. map (fill_detail grid bfs_distances r_idx) [0..<length (grid ! 0)])
         [0..<length grid]"

definition no_start_detailed :: error where
  "no_start_detailed = MazeError ''Could not find start position for detailed info'' 5"

definition get_maze_detailed_info :: "Maze \<Rightarrow> error + detail list list" where
  "get_maze_detailed_info m =
     (if \<not> mazeIsDone m then Inl not_formed
      else
        case foldl (detail_mark_tile m) (wall_grid m wall_detail, None) (concat (mazeList m)) of
          (grid, found) \<Rightarrow>
            (case (case found of None \<Rightarrow> scan_for_start grid | Some p \<Rightarrow> Some p) of
               None \<Rightarrow> Inl no_start_detailed
             | Some start_pos_on_grid \<Rightarrow>
                 Inr (fill_details grid
                        (detail_bfs grid [(start_pos_on_grid, 0)] {start_pos_on_grid}
                           [start_pos_on_grid \<mapsto> 0]))))"

subsection \<open>The argument checks and the draw calls of makePP\<close>

datatype pyval = PyInt int | PyStr string | PyTuple "pyval list" | PyNone

type_synonym rectangle = "(int \<times> int \<times> int \<times> int) \<times> pyval"

record image =
  im_mode :: pyval
  im_size :: "int \<times> int"
  im_color :: pyval
  im_rectangles :: "rectangle list"

definition eight_bit :: "pyval \<Rightarrow> bool" where
  "eight_bit i = (case i of PyInt n \<Rightarrow> \<not> (n < 0 \<or> n > 255) | _ \<Rightarrow> False)"

definition rgb_color :: "(string \<Rightarrow> pyval option) \<Rightarrow> pyval \<Rightarrow> error + pyval" where
  "rgb_color getrgb color =
     (case color of
        PyStr s \<Rightarrow>
          (case getrgb s of
             None \<Rightarrow> Inl (MazeError
               ''RGB mode excepts 140 common html color strings. This was not one of them'' 1)
           | Some rgb \<Rightarrow> Inr rgb)
      | PyTuple vs \<Rightarrow>
          if length vs = 3 then
            (if list_all eight_bit vs then Inr color
             else Inl (MazeError ''RGB mode excepts only 8-bit integers'' 1))
          else Inl (MazeError ''RGB Mode only excepts color strings or 3x8bit tulpels'' 1)
      | _ \<Rightarrow> Inl (MazeError ''RGB Mode only excepts color strings or 3x8bit tulpels'' 1))"

definition check_colors ::
  "(string \<Rightarrow> pyval option) \<Rightarrow> pyval \<Rightarrow> pyval \<Rightarrow> pyval \<Rightarrow> error + pyval \<times> pyval" where
  "check_colors getrgb mode colorWall colorFloor =
     (if mode = PyStr ''1'' then
        (if colorWall \<in> {PyInt 1, PyInt 0} \<and> colorFloor \<in> {PyInt 1, PyInt 0}
         then Inr (colorWall, colorFloor)
         else Inl (MazeError
           (''In mode '' @ [CHR 0x27] @ ''1'' @ [CHR 0x27] @
            '' the color vaules have to be 0 for black or 1 for white'') 1))
      else if mode = PyStr ''RGB'' then
        (case rgb_color getrgb colorWall of
           Inl e \<Rightarrow> Inl e
         | Inr wallRgb \<Rightarrow>
             (case rgb_color getrgb colorFloor of
                Inl e \<Rightarrow> Inl e
              | Inr floorRgb \<Rightarrow> Inr (wallRgb, floorRgb)))
      else Inl (MazeError
        (''The mode was not recognized. Only '' @ [CHR 0x27] @ ''1'' @ [CHR 0x27] @ '' or '' @
         [CHR 0x27] @ ''RGB'' @ [CHR 0x27] @ '' are allowed'') 1))"

definition draw_tile :: "int \<Rightarrow> pyval \<Rightarrow> MazeTile \<Rightarrow> rectangle list" where
  "draw_tile pixelSizeOfTile colorFloor t =
     (let x = ((int (coordinateX t) + 1) * 2 - 1) * pixelSizeOfTile;
          y = ((int (coordinateY t) + 1) * 2 - 1) * pixelSizeOfTile;
          s = pixelSizeOfTile
      in [((x, y, x + s - 1, y + s - 1), colorFloor)] @
         (if North \<in> set (connectTo t) then [((x, y - s, x + s - 1, y - 1), colorFloor)] else []) @
         (if South \<in> set (connectTo t)
          then [((x, y + s, x + s - 1, y + s + s - 1), colorFloor)] else []) @
         (if West \<in> set (connectTo t) then [((x - s, y, x - 1, y + s - 1), colorFloor)] else []) @
         (if East \<in> set (connectTo t)
          then [((x + s, y, x + s + s - 1, y + s - 1), colorFloor)] else []))"

definition makePP ::
  "(string \<Rightarrow> pyval option) \<Rightarrow> Maze \<Rightarrow> pyval \<Rightarrow> pyval \<Rightarrow> pyval \<Rightarrow> pyval \<Rightarrow> error + image" where
  "makePP getrgb m mode colorWall colorFloor pixelSizeOfTile =
     (if \<not> mazeIsDone m then Inl (MazeError ''There is no Maze yet'' 4)
      else
        case check_colors getrgb mode colorWall colorFloor of
          Inl e \<Rightarrow> Inl e
        | Inr (wallColor, floorColor) \<Rightarrow>
            (case pixelSizeOfTile of
               PyInt s \<Rightarrow>
                 if s \<le> 0 then
                   Inl (MazeError ''the size of the tiles has to be an integer > 0'' 1)
                 else Inr \<lparr>im_mode = mode,
                           im_size = (s * (int (sizeX m) * 2 + 1), s * (int (sizeY m) * 2 + 1)),
                           im_color = wallColor,
                           im_rectangles = concat (map (draw_tile s floorColor) (concat (mazeList m)))\<rparr>
             | _ \<Rightarrow> Inl (MazeError ''the size of the tiles has to be an integer > 0'' 1)))"

subsection \<open>Construction and the generation function\<close>

definition Maze_init ::
  "(int \<Rightarrow> rng) \<Rightarrow> int \<Rightarrow> int \<Rightarrow> int \<Rightarrow> string \<Rightarrow> int option \<Rightarrow> error + Maze \<times> rng" where
  "Maze_init seed_rng now_ms dimensionX dimensionY name seed =
     (if dimensionX < 1 \<or> dimensionY < 1 then
        Inl (MazeError ''Maze dimensions have to be an integer > 0'' 1)
      else Inr (\<lparr>sizeX = nat dimensionX, sizeY = nat dimensionY, mazeName = name,
                 mazeIsDone = False, mazeList = [],
                 start_wall = ''Any'', end_wall = ''Any''\<rparr>,
                case seed of Some s \<Rightarrow> seed_rng s | None \<Rightarrow> seed_rng now_ms))"

definition dict_get :: "('k \<rightharpoonup> 'v) \<Rightarrow> 'k \<Rightarrow> error + 'v" where
  "dict_get d k = (case d k of None \<Rightarrow> Inl KeyError | Some v \<Rightarrow> Inr v)"

definition dict_update :: "('k \<rightharpoonup> 'v) \<Rightarrow> ('k \<rightharpoonup> 'v) option \<Rightarrow> ('k \<rightharpoonup> 'v)" where
  "dict_update d other = (case other of None \<Rightarrow> d | Some d' \<Rightarrow> d ++ d')"

definition default_algo_settings :: "string \<rightharpoonup> int" where
  "default_algo_settings = [''weighHigh'' \<mapsto> 99, ''weightLow'' \<mapsto> 97, ''weightBraid'' \<mapsto> - 1]"

definition default_image_settings :: "string \<rightharpoonup> pyval" where
  "default_image_settings =
     [''mode'' \<mapsto> PyStr ''RGB'', ''wall_color'' \<mapsto> PyStr ''Black'',
      ''floor_color'' \<mapsto> PyStr ''White'', ''pixel_size'' \<mapsto> PyInt 10]"

text \<open>
  The keyword arguments of the two calls, as \<^verbatim>\<open>generate_maze\<close> reads them from the
  merged dictionary.
\<close>

definition growtree_arguments :: "(string \<rightharpoonup> int) \<Rightarrow> error + int \<times> int" where
  "growtree_arguments settings =
     (case dict_get settings ''weighHigh'' of
        Inl e \<Rightarrow> Inl e
      | Inr weightHigh \<Rightarrow>
          (case dict_get settings ''weightLow'' of
             Inl e \<Rightarrow> Inl e
           | Inr weightLow \<Rightarrow> Inr (weightHigh, weightLow)))"

definition braid_argument :: "(string \<rightharpoonup> int) \<Rightarrow> error + int" where
  "braid_argument settings = dict_get settings ''weightBraid''"

definition call_makeMazeGrowTree ::
  "Maze \<Rightarrow> (string \<rightharpoonup> int) \<Rightarrow> rng \<Rightarrow> ((error + bool) \<times> Maze \<times> rng) option" where
  "call_makeMazeGrowTree maze settings r =
     (case growtree_arguments settings of
        Inl e \<Rightarrow> Some (Inl e, maze, r)
      | Inr (weightHigh, weightLow) \<Rightarrow> makeMazeGrowTree maze weightHigh weightLow r)"

definition apply_algorithm ::
  "Maze \<Rightarrow> string \<Rightarrow> (string \<rightharpoonup> int) \<Rightarrow> rng \<Rightarrow> ((error + bool) \<times> Maze \<times> rng) option" where
  "apply_algorithm maze algorithm settings r =
     (if algorithm = ''simple'' then makeMazeSimple maze r
      else if algorithm = ''growing_tree'' then call_makeMazeGrowTree maze settings r
      else if algorithm = ''braided'' then
        (case call_makeMazeGrowTree maze settings r of
           None \<Rightarrow> None
         | Some (Inl e, maze', r') \<Rightarrow> Some (Inl e, maze', r')
         | Some (Inr b, maze', r') \<Rightarrow>
             (case braid_argument settings of
                Inl e \<Rightarrow> Some (Inl e, maze', r')
              | Inr weightBraid \<Rightarrow> Some (makeMazeBraided maze' weightBraid r')))
      else Some (Inr True, maze, r))"

datatype maze_output =
    OutList "char list list"
  | OutDict "detail list list"
  | OutDistances "cell list list"
  | OutImage image

definition export_maze ::
  "(string \<Rightarrow> pyval option) \<Rightarrow> Maze \<Rightarrow> string \<Rightarrow> (string \<rightharpoonup> pyval) \<Rightarrow> error + maze_output" where
  "export_maze getrgb maze mode settings =
     (if mode = ''list'' then map_sum id OutList (get_maze_as_list maze)
      else if mode = ''dict'' then map_sum id OutDict (get_maze_detailed_info maze)
      else if mode = ''distances'' then map_sum id OutDistances (get_maze_with_distances maze)
      else
        case dict_get settings ''mode'' of Inl e \<Rightarrow> Inl e | Inr md \<Rightarrow>
        case dict_get settings ''wall_color'' of Inl e \<Rightarrow> Inl e | Inr wc \<Rightarrow>
        case dict_get settings ''floor_color'' of Inl e \<Rightarrow> Inl e | Inr fc \<Rightarrow>
        case dict_get settings ''pixel_size'' of Inl e \<Rightarrow> Inl e | Inr ps \<Rightarrow>
          map_sum id OutImage (makePP getrgb maze md wc fc ps))"

definition generate_maze ::
  "(int \<Rightarrow> rng) \<Rightarrow> (string \<Rightarrow> pyval option) \<Rightarrow> int \<Rightarrow>
   int \<Rightarrow> int \<Rightarrow> string \<Rightarrow> string \<Rightarrow> (string \<rightharpoonup> int) option \<Rightarrow> string \<Rightarrow>
   (string \<rightharpoonup> pyval) option \<Rightarrow> int option \<Rightarrow> string \<Rightarrow> string \<Rightarrow> (error + maze_output) option" where
  "generate_maze seed_rng getrgb now_ms
     width height name algorithm algorithm_settings mode image_settings seed sw ew =
     (let algo_settings = dict_update default_algo_settings algorithm_settings;
          img_settings = dict_update default_image_settings image_settings
      in case Maze_init seed_rng now_ms width height name seed of
           Inl e \<Rightarrow> Some (Inl e)
         | Inr (maze0, r) \<Rightarrow>
             (case apply_algorithm (maze0\<lparr>start_wall := sw, end_wall := ew\<rparr>)
                     algorithm algo_settings r of
                None \<Rightarrow> None
              | Some (Inl e, maze, r') \<Rightarrow> Some (Inl e)
              | Some (Inr b, maze, r') \<Rightarrow> Some (export_maze getrgb maze mode img_settings)))"

text \<open>
  The states a caller can hand to a formation algorithm for the first time: the object as
  the constructor leaves it (sizes at least 1, no tiles yet, not done), with any name and
  any wall selectors assigned afterwards.
\<close>

definition unformed :: "Maze \<Rightarrow> bool" where
  "unformed m \<longleftrightarrow> 1 \<le> sizeX m \<and> 1 \<le> sizeY m \<and> \<not> mazeIsDone m \<and> mazeList m = []"

subsection \<open>The tile graph and the invariants of formation\<close>

text \<open>
  The vocabulary of the properties: the positions of the grid, the neighbour of a position
  in a direction (none across the outer boundary), the passages (symmetric connections
  between adjacent tiles), the edges (unordered passages) and connectedness of the tile
  graph, and the invariants the two formation loops and braiding maintain.
\<close>

definition cells :: "Maze \<Rightarrow> pos set" where
  "cells m = {p. fst p < sizeX m \<and> snd p < sizeY m}"

definition populated :: "Maze \<Rightarrow> bool" where
  "populated m \<longleftrightarrow>
     length (mazeList m) = sizeY m \<and>
     (\<forall>y < sizeY m. length (mazeList m ! y) = sizeX m) \<and>
     (\<forall>p \<in> cells m. coordinateX (tile m p) = fst p \<and> coordinateY (tile m p) = snd p)"

definition opposite :: "direction \<Rightarrow> direction" where
  "opposite d = (case d of North \<Rightarrow> South | South \<Rightarrow> North | West \<Rightarrow> East | East \<Rightarrow> West)"

definition neighbour :: "Maze \<Rightarrow> pos \<Rightarrow> direction \<Rightarrow> pos option" where
  "neighbour m p d =
     (case d of
        North \<Rightarrow> if snd p = 0 then None else Some (fst p, snd p - 1)
      | South \<Rightarrow> if snd p + 1 < sizeY m then Some (fst p, snd p + 1) else None
      | West \<Rightarrow> if fst p = 0 then None else Some (fst p - 1, snd p)
      | East \<Rightarrow> if fst p + 1 < sizeX m then Some (fst p + 1, snd p) else None)"

definition connections :: "Maze \<Rightarrow> pos \<Rightarrow> direction list" where
  "connections m p = connectTo (tile m p)"

definition symmetric_connections :: "Maze \<Rightarrow> bool" where
  "symmetric_connections m \<longleftrightarrow>
     (\<forall>a \<in> cells m. \<forall>d \<in> set (connections m a). \<forall>b.
        neighbour m a d = Some b \<longrightarrow> opposite d \<in> set (connections m b))"

definition no_duplicates :: "Maze \<Rightarrow> bool" where
  "no_duplicates m \<longleftrightarrow> (\<forall>a \<in> cells m. distinct (connections m a))"

definition passage :: "Maze \<Rightarrow> (pos \<times> pos) set" where
  "passage m = {(a, b). a \<in> cells m \<and>
     (\<exists>d \<in> set (connections m a). neighbour m a d = Some b \<and>
        opposite d \<in> set (connections m b))}"

definition edges :: "Maze \<Rightarrow> pos set set" where
  "edges m = (\<lambda>(a, b). {a, b}) ` passage m"

definition maze_connected :: "Maze \<Rightarrow> bool" where
  "maze_connected m \<longleftrightarrow> (\<forall>a \<in> cells m. \<forall>b \<in> cells m. (a, b) \<in> (passage m)\<^sup>*)"

(* store lemmas *)

definition touched :: "Maze \<Rightarrow> pos set" where
  "touched m = {p \<in> cells m. workedOn (tile m p)}"

definition tree_inv :: "Maze \<Rightarrow> bool" where
  "tree_inv m \<longleftrightarrow>
     populated m \<and> symmetric_connections m \<and> no_duplicates m \<and>
     (\<forall>a \<in> cells m. \<forall>d \<in> set (connections m a). neighbour m a d \<noteq> None) \<and>
     (\<forall>a \<in> cells m. \<not> workedOn (tile m a) \<longrightarrow> connections m a = []) \<and>
     (\<forall>a \<in> cells m. is_entry (tile m a) = None) \<and>
     (\<forall>a \<in> touched m. \<forall>b \<in> touched m. (a, b) \<in> (passage m)\<^sup>*) \<and>
     card (edges m) + 1 = card (touched m)"

definition frame :: "Maze \<Rightarrow> Maze" where
  "frame m = m\<lparr>mazeList := []\<rparr>"

definition grow_inv :: "Maze \<Rightarrow> pos list \<Rightarrow> bool" where
  "grow_inv m C \<longleftrightarrow>
     tree_inv m \<and> set C \<subseteq> touched m \<and>
     (\<forall>a \<in> touched m - set C. \<forall>d b. neighbour m a d = Some b \<longrightarrow> workedOn (tile m b))"

definition simple_inv :: "Maze \<Rightarrow> pos list \<Rightarrow> bool" where
  "simple_inv m F \<longleftrightarrow>
     tree_inv m \<and> distinct F \<and>
     set F = {b \<in> cells m. \<not> workedOn (tile m b) \<and>
                (\<exists>a \<in> touched m. \<exists>d. neighbour m a d = Some b)}"

definition outward :: "Maze \<Rightarrow> pos \<Rightarrow> direction list" where
  "outward m p = filter (\<lambda>d. neighbour m p d = None) (connections m p)"

definition placed :: "Maze \<Rightarrow> pos \<Rightarrow> pos \<Rightarrow> bool" where
  "placed m e x \<longleftrightarrow>
     e \<in> cells m \<and> x \<in> cells m \<and> e \<noteq> x \<and>
     (\<forall>q \<in> cells m. is_entry (tile m q) =
        (if q = e then Some True else if q = x then Some False else None)) \<and>
     outward m e = [outward_direction m e] \<and> outward m x = [outward_direction m x] \<and>
     (\<forall>q \<in> cells m. q \<noteq> e \<longrightarrow> q \<noteq> x \<longrightarrow> outward m q = [])"

definition well_formed :: "Maze \<Rightarrow> bool" where
  "well_formed m \<longleftrightarrow>
     populated m \<and> 1 \<le> sizeX m \<and> 1 \<le> sizeY m \<and> mazeIsDone m \<and>
     symmetric_connections m \<and> no_duplicates m \<and> maze_connected m \<and>
     card (edges m) + 1 = sizeX m * sizeY m \<and> (\<exists>e x. placed m e x)"

definition extends :: "Maze \<Rightarrow> Maze \<Rightarrow> bool" where
  "extends m m' \<longleftrightarrow>
     frame m' = frame m \<and> populated m' \<and>
     (\<forall>q. \<exists>ys. connections m' q = connections m q @ ys) \<and>
     (\<forall>q. is_entry (tile m' q) = is_entry (tile m q))"

inductive braided :: "Maze \<Rightarrow> Maze \<Rightarrow> bool" where
  braided_none: "braided m m"
| braided_pass: "braided m m' \<Longrightarrow> makeMazeBraided m' weightBraid r = (res, m'', r') \<Longrightarrow>
                 braided m m''"

definition braid_inv :: "Maze \<Rightarrow> bool" where
  "braid_inv m \<longleftrightarrow> populated m \<and> symmetric_connections m \<and> no_duplicates m"

subsection \<open>A worked example: the 2 by 2 maze grown from the constant random stream\<close>

text \<open>
  The maze of two columns and two rows with the start on the north wall and the end on the
  south wall, as the constructor leaves it; the maze \<^verbatim>\<open>makeMazeGrowTree\<close> forms from it
  when every draw of the generator is 0; and that maze after \<^verbatim>\<open>makeMazeBraided(-1)\<close>.
\<close>

definition example_maze :: Maze where
  "example_maze = \<lparr>sizeX = 2, sizeY = 2, mazeName = ''A_Maze'', mazeIsDone = False,
     mazeList = [], start_wall = ''N'', end_wall = ''S''\<rparr>"

definition example_formed :: Maze where
  "example_formed = \<lparr>sizeX = 2, sizeY = 2, mazeName = ''A_Maze'', mazeIsDone = True,
     mazeList =
       [[\<lparr>workedOn = True, wall = False, coordinateX = 0, coordinateY = 0,
           connectTo = [South, North], is_entry = Some True\<rparr>,
         \<lparr>workedOn = True, wall = False, coordinateX = 1, coordinateY = 0,
           connectTo = [South], is_entry = None\<rparr>],
        [\<lparr>workedOn = True, wall = False, coordinateX = 0, coordinateY = 1,
           connectTo = [North, East, South], is_entry = Some False\<rparr>,
         \<lparr>workedOn = True, wall = False, coordinateX = 1, coordinateY = 1,
           connectTo = [West, North], is_entry = None\<rparr>]],
     start_wall = ''N'', end_wall = ''S''\<rparr>"

definition example_braided :: Maze where
  "example_braided = \<lparr>sizeX = 2, sizeY = 2, mazeName = ''A_Maze'', mazeIsDone = True,
     mazeList =
       [[\<lparr>workedOn = True, wall = False, coordinateX = 0, coordinateY = 0,
           connectTo = [South, North, East], is_entry = Some True\<rparr>,
         \<lparr>workedOn = True, wall = False, coordinateX = 1, coordinateY = 0,
           connectTo = [South, West], is_entry = None\<rparr>],
        [\<lparr>workedOn = True, wall = False, coordinateX = 0, coordinateY = 1,
           connectTo = [North, East, South], is_entry = Some False\<rparr>,
         \<lparr>workedOn = True, wall = False, coordinateX = 1, coordinateY = 1,
           connectTo = [West, North], is_entry = None\<rparr>]],
     start_wall = ''N'', end_wall = ''S''\<rparr>"


section \<open>Properties\<close>

subsection \<open>Formation builds a spanning tree; braiding extends it\<close>

lemma sizes_upd [simp]:
  "sizeX (upd_tile m p f) = sizeX m" "sizeY (upd_tile m p f) = sizeY m"
  "mazeIsDone (upd_tile m p f) = mazeIsDone m"
  "start_wall (upd_tile m p f) = start_wall m" "end_wall (upd_tile m p f) = end_wall m"
  "length (mazeList (upd_tile m p f)) = length (mazeList m)"
  by (simp_all add: upd_tile_def)

lemma cells_upd [simp]: "cells (upd_tile m p f) = cells m"
  by (simp add: cells_def)

lemma neighbour_upd [simp]: "neighbour (upd_tile m p f) = neighbour m"
  by (simp add: neighbour_def fun_eq_iff)

lemma valid_ref_cells: "populated m \<Longrightarrow> valid_ref m p \<longleftrightarrow> p \<in> cells m"
  by (auto simp: populated_def valid_ref_def cells_def)

lemma populated_upd:
  assumes "populated m" "\<And>t. coordinateX (f t) = coordinateX t \<and> coordinateY (f t) = coordinateY t"
  shows "populated (upd_tile m p f)"
  using assms unfolding populated_def
  by (auto simp: row_upd tile_upd)

lemma sizes_append_connection [simp]:
  "sizeX (append_connection m p d) = sizeX m" "sizeY (append_connection m p d) = sizeY m"
  "mazeIsDone (append_connection m p d) = mazeIsDone m"
  "start_wall (append_connection m p d) = start_wall m"
  "end_wall (append_connection m p d) = end_wall m"
  "cells (append_connection m p d) = cells m"
  "neighbour (append_connection m p d) = neighbour m"
  by (simp_all add: append_connection_def)

lemma populated_append_connection [simp]:
  "populated m \<Longrightarrow> populated (append_connection m p d)"
  by (simp add: append_connection_def populated_upd)

lemma connections_append_connection:
  "connections (append_connection m p d) q =
     (if q = p \<and> valid_ref m p then connections m p @ [d] else connections m q)"
  by (auto simp: connections_def append_connection_def tile_upd)

lemma is_entry_append_connection [simp]:
  "is_entry (tile (append_connection m p d) q) = is_entry (tile m q)"
  by (simp add: append_connection_def tile_upd)

lemma sizes_set_workedOn [simp]:
  "sizeX (set_workedOn m p) = sizeX m" "sizeY (set_workedOn m p) = sizeY m"
  "mazeIsDone (set_workedOn m p) = mazeIsDone m"
  "start_wall (set_workedOn m p) = start_wall m"
  "end_wall (set_workedOn m p) = end_wall m"
  "cells (set_workedOn m p) = cells m"
  "neighbour (set_workedOn m p) = neighbour m"
  "valid_ref (set_workedOn m p) q = valid_ref m q"
  by (simp_all add: set_workedOn_def)

lemma populated_set_workedOn [simp]: "populated m \<Longrightarrow> populated (set_workedOn m p)"
  by (simp add: set_workedOn_def populated_upd)

lemma connections_set_workedOn [simp]: "connections (set_workedOn m p) q = connections m q"
  by (simp add: connections_def set_workedOn_def tile_upd)

lemma is_entry_set_workedOn [simp]: "is_entry (tile (set_workedOn m p) q) = is_entry (tile m q)"
  by (simp add: set_workedOn_def tile_upd)

lemma workedOn_set_workedOn:
  "workedOn (tile (set_workedOn m p) q) \<longleftrightarrow> (q = p \<and> valid_ref m p) \<or> workedOn (tile m q)"
  by (auto simp: set_workedOn_def tile_upd)

lemma coords_set_workedOn [simp]:
  "coordinateX (tile (set_workedOn m p) q) = coordinateX (tile m q)"
  "coordinateY (tile (set_workedOn m p) q) = coordinateY (tile m q)"
  by (simp_all add: set_workedOn_def tile_upd)

lemma neighbours_of_set_workedOn [simp]: "neighbours_of (set_workedOn m p) q = neighbours_of m q"
  by (simp add: neighbours_of_def getNextTiles_def)

lemma neighbour_cells: "neighbour m a d = Some b \<Longrightarrow> a \<in> cells m \<Longrightarrow> b \<in> cells m"
  by (auto simp: neighbour_def cells_def split: direction.splits if_splits)

lemma neighbour_neq: "neighbour m a d = Some b \<Longrightarrow> a \<noteq> b"
  by (cases a) (auto simp: neighbour_def split: direction.splits if_splits)

lemma neighbour_back: "neighbour m a d = Some b \<Longrightarrow> a \<in> cells m \<Longrightarrow> neighbour m b (opposite d) = Some a"
  by (cases a) (auto simp: neighbour_def opposite_def cells_def split: direction.splits if_splits)

lemma neighbour_inj: "neighbour m a d = Some b \<Longrightarrow> neighbour m a d' = Some b \<Longrightarrow> d = d'"
  by (cases d; cases d') (auto simp: neighbour_def split: if_splits)

lemma opposite_opposite [simp]: "opposite (opposite d) = d"
  by (cases d) (simp_all add: opposite_def)

lemma neighbours_of_populated:
  assumes "populated m" "a \<in> cells m"
  shows "set (neighbours_of m a) = {b. \<exists>d. neighbour m a d = Some b}"
proof -
  from assms have c: "coordinateX (tile m a) = fst a" "coordinateY (tile m a) = snd a"
    by (simp_all add: populated_def)
  have v: "valid_ref m p \<longleftrightarrow> p \<in> cells m" for p by (rule valid_ref_cells [OF assms(1)])
  show ?thesis
  proof (intro set_eqI iffI)
    fix b assume "b \<in> set (neighbours_of m a)"
    then consider "snd a \<noteq> 0" "b = (fst a, snd a - 1)"
      | "b = (fst a, snd a + 1)" "b \<in> cells m"
      | "fst a \<noteq> 0" "b = (fst a - 1, snd a)"
      | "b = (fst a + 1, snd a)" "b \<in> cells m"
      by (auto simp: neighbours_of_def getNextTiles_def c v split: if_splits)
    then show "b \<in> {b. \<exists>d. neighbour m a d = Some b}"
    proof cases
      case 1 then show ?thesis by (auto simp: neighbour_def intro!: exI [of _ North])
    next
      case 2 then show ?thesis by (auto simp: neighbour_def cells_def intro!: exI [of _ South])
    next
      case 3 then show ?thesis by (auto simp: neighbour_def intro!: exI [of _ West])
    next
      case 4 then show ?thesis by (auto simp: neighbour_def cells_def intro!: exI [of _ East])
    qed
  next
    fix b assume "b \<in> {b. \<exists>d. neighbour m a d = Some b}"
    then obtain d where d: "neighbour m a d = Some b" by blast
    then have "b \<in> cells m" using assms(2) by (rule neighbour_cells)
    with d assms(2) show "b \<in> set (neighbours_of m a)"
      by (cases d) (auto simp: neighbours_of_def getNextTiles_def c v neighbour_def cells_def
          split: if_splits)
  qed
qed

lemma connectTiles_towards:
  assumes "populated m" "a \<in> cells m" "neighbour m a d = Some b"
  shows "connectTiles m a b = append_connection (append_connection m a d) b (opposite d)"
proof -
  from assms have b: "b \<in> cells m" by (auto intro: neighbour_cells)
  from assms b have c: "coordinateX (tile m a) = fst a" "coordinateY (tile m a) = snd a"
     "coordinateX (tile m b) = fst b" "coordinateY (tile m b) = snd b"
    by (simp_all add: populated_def)
  from assms(3) show ?thesis
    by (cases d) (auto simp: connectTiles_def Let_def c neighbour_def opposite_def split: if_splits)
qed

lemma connectTiles_observe:
  assumes "populated m" "a \<in> cells m" "neighbour m a d = Some b"
    and "m' = connectTiles m a b \<or> m' = connectTiles m b a"
  shows "populated m' \<and> sizeX m' = sizeX m \<and> sizeY m' = sizeY m \<and>
         (\<forall>q. connections m' q =
            (if q = a then connections m a @ [d]
             else if q = b then connections m b @ [opposite d] else connections m q)) \<and>
         (\<forall>q. is_entry (tile m' q) = is_entry (tile m q)) \<and>
         (\<forall>q. workedOn (tile m' q) = workedOn (tile m q))"
proof -
  from assms have b: "b \<in> cells m" by (auto intro: neighbour_cells)
  have ab: "a \<noteq> b" using assms(3) by (rule neighbour_neq)
  have bk: "neighbour m b (opposite d) = Some a" using assms by (auto intro: neighbour_back)
  have v: "valid_ref m a" "valid_ref m b" using assms b by (simp_all add: valid_ref_cells)
  from assms(4) show ?thesis
  proof
    assume "m' = connectTiles m a b"
    then have "m' = append_connection (append_connection m a d) b (opposite d)"
      using connectTiles_towards [OF assms(1-3)] by simp
    then show ?thesis using assms(1) ab v
      by (auto simp: connections_append_connection)
  next
    assume "m' = connectTiles m b a"
    then have "m' = append_connection (append_connection m b (opposite d)) a d"
      using connectTiles_towards [OF assms(1) b bk] by simp
    then show ?thesis using assms(1) ab v
      by (auto simp: connections_append_connection)
  qed
qed

lemma same_sizes:
  assumes "sizeX m' = sizeX m" "sizeY m' = sizeY m"
  shows "cells m' = cells m" "neighbour m' = neighbour m"
  using assms by (simp_all add: cells_def neighbour_def fun_eq_iff)

lemma finite_cells [simp]: "finite (cells m)"
proof -
  have "cells m \<subseteq> {..<sizeX m} \<times> {..<sizeY m}" by (auto simp: cells_def)
  then show ?thesis by (rule finite_subset) simp
qed

lemma passage_cells: "(a, b) \<in> passage m \<Longrightarrow> a \<in> cells m \<and> b \<in> cells m"
  by (auto simp: passage_def dest: neighbour_cells)

lemma finite_passage [simp]: "finite (passage m)"
proof -
  have "passage m \<subseteq> cells m \<times> cells m" by (auto dest: passage_cells)
  then show ?thesis by (rule finite_subset) simp
qed

lemma finite_edges [simp]: "finite (edges m)"
  by (simp add: edges_def)

lemma finite_touched [simp]: "finite (touched m)"
  by (rule finite_subset [of _ "cells m"]) (auto simp: touched_def)

lemma symmetricD:
  "symmetric_connections m \<Longrightarrow> a \<in> cells m \<Longrightarrow> d \<in> set (connections m a) \<Longrightarrow>
   neighbour m a d = Some b \<Longrightarrow> opposite d \<in> set (connections m b)"
  unfolding symmetric_connections_def by blast

lemma passage_symmetric:
  "symmetric_connections m \<Longrightarrow>
   passage m = {(a, b). a \<in> cells m \<and> (\<exists>d \<in> set (connections m a). neighbour m a d = Some b)}"
  by (auto simp: passage_def dest: symmetricD)

lemma passage_sym: "(a, b) \<in> passage m \<Longrightarrow> (b, a) \<in> passage m"
  unfolding passage_def
  by (auto dest: neighbour_cells neighbour_back intro!: bexI [of _ "opposite d" for d])

lemma opposite_eq_iff [simp]: "opposite d = opposite d' \<longleftrightarrow> d = d'"
  by (cases d; cases d') (simp_all add: opposite_def)

lemma neighbour_source_unique:
  assumes "neighbour m a d = Some b" "neighbour m a' d = Some b"
  shows "a = a'"
  using assms by (cases a; cases a'; cases d) (auto simp: neighbour_def split: if_splits)

lemma link_tiles:
  assumes inv: "tree_inv m"
    and a: "a \<in> touched m" and b: "b \<in> cells m" "\<not> workedOn (tile m b)"
    and d: "neighbour m a d = Some b"
    and pop: "populated m'" and sz: "sizeX m' = sizeX m" "sizeY m' = sizeY m"
    and conn: "\<And>q. connections m' q =
            (if q = a then connections m a @ [d]
             else if q = b then connections m b @ [opposite d] else connections m q)"
    and ent: "\<And>q. is_entry (tile m' q) = is_entry (tile m q)"
    and wo: "\<And>q. q \<in> cells m \<Longrightarrow> workedOn (tile m' q) \<longleftrightarrow> q = b \<or> workedOn (tile m q)"
  shows "tree_inv m'"
proof -
  note eq = same_sizes [OF sz]
  from a have ac: "a \<in> cells m" and aw: "workedOn (tile m a)" by (simp_all add: touched_def)
  have ab: "a \<noteq> b" using aw b by auto
  from inv b have cb: "connections m b = []" by (simp add: tree_inv_def)
  from inv have sym: "symmetric_connections m" by (simp add: tree_inv_def)
  have dn: "d \<notin> set (connections m a)"
  proof
    assume "d \<in> set (connections m a)"
    with sym ac d have "opposite d \<in> set (connections m b)"
      by (blast intro: symmetricD)
    with cb show False by simp
  qed
  have ba: "neighbour m b (opposite d) = Some a" using d ac by (rule neighbour_back)
  have conn_a: "connections m' a = connections m a @ [d]"
    and conn_b: "connections m' b = [opposite d]"
    and conn_o: "\<And>q. q \<noteq> a \<Longrightarrow> q \<noteq> b \<Longrightarrow> connections m' q = connections m q"
    using conn ab cb by auto
  have mono: "set (connections m q) \<subseteq> set (connections m' q)" for q
    using conn [of q] by auto
  have sym': "symmetric_connections m'"
    unfolding symmetric_connections_def eq
  proof (intro ballI allI impI)
    fix x d' y
    assume x: "x \<in> cells m" and d': "d' \<in> set (connections m' x)"
      and n: "neighbour m x d' = Some y"
    show "opposite d' \<in> set (connections m' y)"
    proof (cases "d' \<in> set (connections m x)")
      case True
      with sym x n have "opposite d' \<in> set (connections m y)"
        by (blast intro: symmetricD)
      with mono show ?thesis by blast
    next
      case False
      with d' conn [of x] cb have "x = a \<and> d' = d \<or> x = b \<and> d' = opposite d"
        by (auto split: if_splits)
      then show ?thesis
      proof
        assume "x = a \<and> d' = d"
        with n d have "y = b" by simp
        then show ?thesis using conn_b \<open>x = a \<and> d' = d\<close> by simp
      next
        assume "x = b \<and> d' = opposite d"
        with n ba have "y = a" by simp
        then show ?thesis using conn_a \<open>x = b \<and> d' = opposite d\<close> by simp
      qed
    qed
  qed
  have pass: "passage m' = passage m \<union> {(a, b), (b, a)}"
  proof -
    have P': "(x, y) \<in> passage m' \<longleftrightarrow>
        x \<in> cells m \<and> (\<exists>d' \<in> set (connections m' x). neighbour m x d' = Some y)" for x y
      using passage_symmetric [OF sym'] by (simp add: eq)
    have P: "(x, y) \<in> passage m \<longleftrightarrow>
        x \<in> cells m \<and> (\<exists>d' \<in> set (connections m x). neighbour m x d' = Some y)" for x y
      using passage_symmetric [OF sym] by simp
    have "(x, y) \<in> passage m' \<longleftrightarrow> (x, y) \<in> passage m \<or> (x, y) = (a, b) \<or> (x, y) = (b, a)"
      for x y
    proof
      assume "(x, y) \<in> passage m'"
      then obtain d' where x: "x \<in> cells m" and d': "d' \<in> set (connections m' x)"
        and n: "neighbour m x d' = Some y" unfolding P' by blast
      show "(x, y) \<in> passage m \<or> (x, y) = (a, b) \<or> (x, y) = (b, a)"
      proof (cases "d' \<in> set (connections m x)")
        case True
        with x n show ?thesis unfolding P by blast
      next
        case False
        with d' conn [of x] cb have "x = a \<and> d' = d \<or> x = b \<and> d' = opposite d"
          by (auto split: if_splits)
        with n d ba show ?thesis by auto
      qed
    next
      assume "(x, y) \<in> passage m \<or> (x, y) = (a, b) \<or> (x, y) = (b, a)"
      then show "(x, y) \<in> passage m'"
      proof (elim disjE)
        assume "(x, y) \<in> passage m"
        then obtain d' where "x \<in> cells m" "d' \<in> set (connections m x)"
          "neighbour m x d' = Some y" unfolding P by blast
        with mono [of x] show ?thesis unfolding P' by blast
      next
        assume "(x, y) = (a, b)"
        with ac d conn_a show ?thesis unfolding P' by auto
      next
        assume "(x, y) = (b, a)"
        with b(1) ba conn_b show ?thesis unfolding P' by auto
      qed
    qed
    then show ?thesis by auto
  qed
  have nb: "(x, y) \<in> passage m \<Longrightarrow> x \<noteq> b \<and> y \<noteq> b" for x y
    using cb passage_sym [of x y m] by (auto simp: passage_def)
  have "edges m' = insert {a, b} (edges m)"
    unfolding edges_def pass by (auto simp: insert_commute)
  moreover have "{a, b} \<notin> edges m"
  proof
    assume "{a, b} \<in> edges m"
    then obtain x y where xy: "(x, y) \<in> passage m" and "{x, y} = {a, b}"
      unfolding edges_def by fastforce
    then have "x = b \<or> y = b" by (auto simp: doubleton_eq_iff)
    with nb [OF xy] show False by blast
  qed
  ultimately have ce: "card (edges m') = card (edges m) + 1" by simp
  have t': "touched m' = insert b (touched m)"
    using b(1) wo by (auto simp: touched_def eq)
  have bt: "b \<notin> touched m" using b by (simp add: touched_def)
  have ct: "card (touched m') = card (touched m) + 1" using t' bt by simp
  have pm: "(passage m)\<^sup>* \<subseteq> (passage m')\<^sup>*" by (rule rtrancl_mono) (auto simp: pass)
  have step_ab: "(a, b) \<in> (passage m')\<^sup>*" "(b, a) \<in> (passage m')\<^sup>*"
    by (auto simp: pass)
  have reach: "(x, y) \<in> (passage m')\<^sup>*" if "x \<in> touched m'" "y \<in> touched m'" for x y
  proof -
    from inv have old: "\<And>u v. u \<in> touched m \<Longrightarrow> v \<in> touched m \<Longrightarrow> (u, v) \<in> (passage m)\<^sup>*"
      by (simp add: tree_inv_def)
    have xa: "(x, a) \<in> (passage m')\<^sup>*"
    proof (cases "x = b")
      case True then show ?thesis using step_ab by simp
    next
      case False
      with that t' have "x \<in> touched m" by simp
      from old [OF this a] pm show ?thesis by blast
    qed
    have ay: "(a, y) \<in> (passage m')\<^sup>*"
    proof (cases "y = b")
      case True then show ?thesis using step_ab by simp
    next
      case False
      with that t' have "y \<in> touched m" by simp
      from old [OF a this] pm show ?thesis by blast
    qed
    from xa ay show ?thesis by (rule rtrancl_trans)
  qed
  have nd': "no_duplicates m'"
    using inv dn cb unfolding no_duplicates_def tree_inv_def eq
    by (auto simp: conn)
  have int': "\<forall>x \<in> cells m. \<forall>d' \<in> set (connections m' x). neighbour m x d' \<noteq> None"
    using inv d ba cb unfolding tree_inv_def by (auto simp: conn split: if_splits)
  have unt': "\<forall>x \<in> cells m. \<not> workedOn (tile m' x) \<longrightarrow> connections m' x = []"
    using inv aw wo unfolding tree_inv_def by (auto simp: conn)
  have ent': "\<forall>x \<in> cells m. is_entry (tile m' x) = None"
    using inv unfolding tree_inv_def by (simp add: ent)
  from inv have "card (edges m) + 1 = card (touched m)" by (simp add: tree_inv_def)
  with ce ct have "card (edges m') + 1 = card (touched m')" by simp
  with pop sym' nd' int' unt' ent' reach show ?thesis
    unfolding tree_inv_def eq by blast
qed

lemma populate_props:
  assumes "unformed m"
  shows "populated (populate m)" "sizeX (populate m) = sizeX m" "sizeY (populate m) = sizeY m"
    "mazeIsDone (populate m) = mazeIsDone m"
    "start_wall (populate m) = start_wall m" "end_wall (populate m) = end_wall m"
    "\<And>p. p \<in> cells m \<Longrightarrow> tile (populate m) p = new_MazeTile (fst p) (snd p) False"
  using assms
  by (auto simp: unformed_def populate_def populated_def cells_def tile_def new_MazeTile_def)

lemma choose_startingtile_cells:
  assumes "populated m" "1 \<le> sizeX m" "1 \<le> sizeY m"
  shows "\<exists>p r'. choose_startingtile m r = (Inr p, r') \<and> p \<in> cells m"
proof -
  let ?y = "shd r mod sizeY m"
  let ?x = "shd (stl r) mod sizeX m"
  from assms have y: "?y < sizeY m" and x: "?x < sizeX m" by simp_all
  from assms have len: "length (mazeList m) = sizeY m" "length (mazeList m ! ?y) = sizeX m"
    using y by (simp_all add: populated_def)
  from assms have ne: "mazeList_refs m \<noteq> []" by (simp add: mazeList_refs_def populated_def)
  have row: "mazeList_refs m ! ?y = row_refs m ?y" using y len by (simp add: mazeList_refs_def)
  have ne2: "row_refs m ?y \<noteq> []" using assms len by (simp add: row_refs_def)
  have "choose_startingtile m r = (Inr (?x, ?y), stl (stl r))"
    using ne ne2 row x len
    by (simp add: choose_startingtile_def rnd_choice_def mazeList_refs_def row_refs_def)
  with x y show ?thesis by (simp add: cells_def)
qed

lemma tree_inv_start:
  assumes "unformed m" "s \<in> cells m"
  shows "tree_inv (set_workedOn (populate m) s)"
proof -
  let ?m = "set_workedOn (populate m) s"
  note pp = populate_props [OF assms(1)]
  have c: "cells (populate m) = cells m" using pp by (simp add: cells_def)
  have conn: "connections ?m q = []" if "q \<in> cells m" for q
  proof -
    have "connections ?m q = connections (populate m) q" by simp
    also have "\<dots> = []" using pp(7) [OF that] by (simp add: connections_def new_MazeTile_def)
    finally show ?thesis .
  qed
  have "passage ?m = {}" using conn c by (auto simp: passage_def)
  then have e: "edges ?m = {}" by (simp add: edges_def)
  have v: "valid_ref (populate m) s" using pp(1) assms(2) c by (simp add: valid_ref_cells)
  have t: "touched ?m = {s}"
    using pp(7) v assms(2) c
    by (auto simp: touched_def workedOn_set_workedOn new_MazeTile_def)
  show ?thesis
    unfolding tree_inv_def
    using pp(1) conn c e t pp(7)
    by (auto simp: symmetric_connections_def no_duplicates_def new_MazeTile_def)
qed

subsection \<open>The grid is connected\<close>

lemma grid_row:
  assumes cl0: "\<forall>a d b. a \<in> T \<longrightarrow> neighbour m a d = Some b \<longrightarrow> b \<in> T"
    and "(x, y) \<in> T" "x < sizeX m" "x' < sizeX m"
  shows "(x', y) \<in> T"
proof -
  have cl: "\<And>a d b. a \<in> T \<Longrightarrow> neighbour m a d = Some b \<Longrightarrow> b \<in> T" using cl0 by blast
  have up: "x + k < sizeX m \<Longrightarrow> (x + k, y) \<in> T" for k
  proof (induction k)
    case 0 then show ?case using assms by simp
  next
    case (Suc k)
    then have "(x + k, y) \<in> T" by simp
    moreover have "neighbour m (x + k, y) East = Some (x + Suc k, y)"
      using Suc.prems by (simp add: neighbour_def)
    ultimately show ?case by (rule cl)
  qed
  have down: "k \<le> x \<Longrightarrow> (x - k, y) \<in> T" for k
  proof (induction k)
    case 0 then show ?case using assms by simp
  next
    case (Suc k)
    then have "(x - k, y) \<in> T" by simp
    moreover have "neighbour m (x - k, y) West = Some (x - Suc k, y)"
      using Suc.prems by (simp add: neighbour_def)
    ultimately show ?case by (rule cl)
  qed
  show ?thesis
  proof (cases "x \<le> x'")
    case True
    then have "x' = x + (x' - x)" by simp
    with up [of "x' - x"] assms(4) show ?thesis by simp
  next
    case False
    then have "x' = x - (x - x')" by simp
    with down [of "x - x'"] show ?thesis by simp
  qed
qed

lemma grid_column:
  assumes cl0: "\<forall>a d b. a \<in> T \<longrightarrow> neighbour m a d = Some b \<longrightarrow> b \<in> T"
    and "(x, y) \<in> T" "y < sizeY m" "y' < sizeY m"
  shows "(x, y') \<in> T"
proof -
  have cl: "\<And>a d b. a \<in> T \<Longrightarrow> neighbour m a d = Some b \<Longrightarrow> b \<in> T" using cl0 by blast
  have up: "y + k < sizeY m \<Longrightarrow> (x, y + k) \<in> T" for k
  proof (induction k)
    case 0 then show ?case using assms by simp
  next
    case (Suc k)
    then have "(x, y + k) \<in> T" by simp
    moreover have "neighbour m (x, y + k) South = Some (x, y + Suc k)"
      using Suc.prems by (simp add: neighbour_def)
    ultimately show ?case by (rule cl)
  qed
  have down: "k \<le> y \<Longrightarrow> (x, y - k) \<in> T" for k
  proof (induction k)
    case 0 then show ?case using assms by simp
  next
    case (Suc k)
    then have "(x, y - k) \<in> T" by simp
    moreover have "neighbour m (x, y - k) North = Some (x, y - Suc k)"
      using Suc.prems by (simp add: neighbour_def)
    ultimately show ?case by (rule cl)
  qed
  show ?thesis
  proof (cases "y \<le> y'")
    case True
    then have "y' = y + (y' - y)" by simp
    with up [of "y' - y"] assms(4) show ?thesis by simp
  next
    case False
    then have "y' = y - (y - y')" by simp
    with down [of "y - y'"] show ?thesis by simp
  qed
qed

lemma grid_closed:
  assumes cl0: "\<forall>a d b. a \<in> T \<longrightarrow> neighbour m a d = Some b \<longrightarrow> b \<in> T"
    and "s \<in> T" "s \<in> cells m"
  shows "cells m \<subseteq> T"
proof
  fix p assume p: "p \<in> cells m"
  obtain x y where s: "s = (x, y)" by (cases s)
  obtain x' y' where p': "p = (x', y')" by (cases p)
  from assms s have "(x, y) \<in> T" "x < sizeX m" "y < sizeY m" by (simp_all add: cells_def)
  moreover from p p' have "x' < sizeX m" "y' < sizeY m" by (simp_all add: cells_def)
  ultimately have "(x', y) \<in> T" using grid_row [OF cl0] by blast
  then have "(x', y') \<in> T" using grid_column [OF cl0] \<open>y < sizeY m\<close> \<open>y' < sizeY m\<close> by blast
  then show "p \<in> T" by (simp add: p')
qed

lemma frame_fields:
  "sizeX (frame m) = sizeX m" "sizeY (frame m) = sizeY m" "mazeIsDone (frame m) = mazeIsDone m"
  "start_wall (frame m) = start_wall m" "end_wall (frame m) = end_wall m"
  "mazeName (frame m) = mazeName m"
  by (simp_all add: frame_def)

lemma frame_eqD:
  assumes "frame m' = frame m"
  shows "sizeX m' = sizeX m" "sizeY m' = sizeY m" "mazeIsDone m' = mazeIsDone m"
    "start_wall m' = start_wall m" "end_wall m' = end_wall m" "cells m' = cells m"
    "neighbour m' = neighbour m"
proof -
  show x: "sizeX m' = sizeX m" using arg_cong [OF assms, of sizeX] by (simp add: frame_fields)
  show y: "sizeY m' = sizeY m" using arg_cong [OF assms, of sizeY] by (simp add: frame_fields)
  show "mazeIsDone m' = mazeIsDone m" using arg_cong [OF assms, of mazeIsDone] by (simp add: frame_fields)
  show "start_wall m' = start_wall m" using arg_cong [OF assms, of start_wall] by (simp add: frame_fields)
  show "end_wall m' = end_wall m" using arg_cong [OF assms, of end_wall] by (simp add: frame_fields)
  show "cells m' = cells m" "neighbour m' = neighbour m" using same_sizes [OF x y] by simp_all
qed

lemma frame_upd [simp]: "frame (upd_tile m p f) = frame m"
  by (simp add: frame_def upd_tile_def)

lemma frame_append_connection [simp]: "frame (append_connection m p d) = frame m"
  by (simp add: append_connection_def)

lemma frame_set_workedOn [simp]: "frame (set_workedOn m p) = frame m"
  by (simp add: set_workedOn_def)

lemma frame_connectTiles [simp]: "frame (connectTiles m a b) = frame m"
  by (simp add: connectTiles_def Let_def)

lemma frame_populate: "frame (populate m) = frame m"
  by (simp add: frame_def populate_def)

lemma select_tile_total:
  "C \<noteq> [] \<Longrightarrow> \<exists>t r'. select_tile wh wl C r = (Inr t, r') \<and> t \<in> set C"
  by (cases "rnd_random r")
     (simp add: select_tile_def Let_def rnd_choice_def del: split_paired_Ex)

lemma rnd_choice_total: "xs \<noteq> [] \<Longrightarrow> \<exists>x r'. rnd_choice xs r = (Inr x, r') \<and> x \<in> set xs"
  by (simp add: rnd_choice_def)

lemma add_tile:
  assumes inv: "tree_inv m" and t: "t \<in> touched m"
    and c: "c \<in> set (neighbours_of m t)" "\<not> workedOn (tile m c)"
    and m': "m' = connectTiles (set_workedOn m c) t c \<or> m' = connectTiles (set_workedOn m c) c t"
  shows "tree_inv m' \<and> frame m' = frame m \<and> touched m' = insert c (touched m)"
proof -
  from inv have pop: "populated m" by (simp add: tree_inv_def)
  from t have tc: "t \<in> cells m" by (simp add: touched_def)
  from c(1) obtain d where d: "neighbour m t d = Some c"
    using neighbours_of_populated [OF pop tc] by auto
  then have cc: "c \<in> cells m" using tc by (rule neighbour_cells)
  let ?m1 = "set_workedOn m c"
  have obs: "populated m' \<and> sizeX m' = sizeX ?m1 \<and> sizeY m' = sizeY ?m1 \<and>
         (\<forall>q. connections m' q =
            (if q = t then connections ?m1 t @ [d]
             else if q = c then connections ?m1 c @ [opposite d] else connections ?m1 q)) \<and>
         (\<forall>q. is_entry (tile m' q) = is_entry (tile ?m1 q)) \<and>
         (\<forall>q. workedOn (tile m' q) = workedOn (tile ?m1 q))"
    by (rule connectTiles_observe [where a = t and b = c]) (use pop tc d m' in simp_all)
  have v: "valid_ref m c" using pop cc by (simp add: valid_ref_cells)
  have fr: "frame m' = frame m" using m' by auto
  have ti: "tree_inv m'"
    by (rule link_tiles [OF inv t cc c(2) d]) (use obs v in \<open>simp_all add: workedOn_set_workedOn del: split_paired_All\<close>)
  have "touched m' = insert c (touched m)"
    using obs v cc frame_eqD(6) [OF fr]
    by (auto simp: touched_def workedOn_set_workedOn simp del: split_paired_All)
  with ti fr show ?thesis by simp
qed

lemma grow_body_inv:
  assumes "grow_inv m C" "C \<noteq> []"
  shows "\<exists>m' C' r'. grow_body wh wl m C r = (Inr (), m', C', r') \<and> grow_inv m' C' \<and>
           frame m' = frame m"
proof -
  from assms have inv: "tree_inv m" and sub: "set C \<subseteq> touched m"
    and fin: "\<And>a d b. a \<in> touched m \<Longrightarrow> a \<notin> set C \<Longrightarrow> neighbour m a d = Some b \<Longrightarrow>
                 workedOn (tile m b)"
    by (auto simp: grow_inv_def)
  from inv have pop: "populated m" by (simp add: tree_inv_def)
  obtain t r2 where sel: "select_tile wh wl C r = (Inr t, r2)" and tC: "t \<in> set C"
    using select_tile_total [OF assms(2)] by blast
  from tC sub have tt: "t \<in> touched m" by blast
  then have tc: "t \<in> cells m" by (simp add: touched_def)
  define nei where "nei = filter (\<lambda>t. \<not> workedOn (tile m t)) (neighbours_of m t)"
  show ?thesis
  proof (cases "nei = []")
    case True
    then have body: "grow_body wh wl m C r = (Inr (), m, remove1 t C, r2)"
      using sel tC by (simp add: grow_body_def nei_def)
    have tn: "workedOn (tile m b)" if "neighbour m t d = Some b" for d b
    proof -
      from that have "b \<in> set (neighbours_of m t)"
        using neighbours_of_populated [OF pop tc] by auto
      with True show ?thesis by (auto simp: nei_def filter_empty_conv)
    qed
    have "grow_inv m (remove1 t C)"
      unfolding grow_inv_def
    proof (intro conjI ballI allI impI)
      show "tree_inv m" by (rule inv)
      show "set (remove1 t C) \<subseteq> touched m" using sub set_remove1_subset [of t C] by blast
    next
      fix a d b
      assume a: "a \<in> touched m - set (remove1 t C)" and n: "neighbour m a d = Some b"
      show "workedOn (tile m b)"
      proof (cases "a = t")
        case True with n tn show ?thesis by blast
      next
        case False
        with a have "a \<notin> set C" by (simp add: in_set_remove1)
        with a n fin show ?thesis by blast
      qed
    qed
    with body show ?thesis by blast
  next
    case False
    then obtain c r3 where ch: "rnd_choice nei r2 = (Inr c, r3)" and cn: "c \<in> set nei"
      using rnd_choice_total by blast
    let ?m' = "connectTiles (set_workedOn m c) t c"
    from False ch sel have body: "grow_body wh wl m C r = (Inr (), ?m', C @ [c], r3)"
      by (simp add: grow_body_def nei_def Let_def)
    from cn have c: "c \<in> set (neighbours_of m t)" "\<not> workedOn (tile m c)"
      by (simp_all add: nei_def)
    have at: "tree_inv ?m' \<and> frame ?m' = frame m \<and> touched ?m' = insert c (touched m)"
      by (rule add_tile [OF inv tt c]) simp
    then have fr: "frame ?m' = frame m" and tch: "touched ?m' = insert c (touched m)" by simp_all
    have "grow_inv ?m' (C @ [c])"
      unfolding grow_inv_def
    proof (intro conjI ballI allI impI)
      show "tree_inv ?m'" using at by simp
      show "set (C @ [c]) \<subseteq> touched ?m'" using sub tch by auto
    next
      fix a d b
      assume a: "a \<in> touched ?m' - set (C @ [c])" and n: "neighbour ?m' a d = Some b"
      then have "a \<in> touched m" "a \<notin> set C" using tch by auto
      moreover from n have "neighbour m a d = Some b" using frame_eqD(7) [OF fr] by simp
      ultimately have w: "workedOn (tile m b)" by (rule fin)
      have "b \<in> cells m" using \<open>neighbour m a d = Some b\<close> \<open>a \<in> touched m\<close>
        by (auto simp: touched_def dest: neighbour_cells)
      with w have "b \<in> touched ?m'" using tch by (simp add: touched_def)
      then show "workedOn (tile ?m' b)" by (simp add: touched_def)
    qed
    with body fr show ?thesis by blast
  qed
qed

lemma touched_nonempty: "tree_inv m \<Longrightarrow> touched m \<noteq> {}"
proof
  assume "tree_inv m" "touched m = {}"
  then show False by (simp add: tree_inv_def)
qed

lemma all_touched:
  assumes "tree_inv m"
    and "\<forall>a \<in> touched m. \<forall>d b. neighbour m a d = Some b \<longrightarrow> workedOn (tile m b)"
  shows "touched m = cells m"
proof -
  obtain s where s: "s \<in> touched m" using touched_nonempty [OF assms(1)] by blast
  have "\<forall>a d b. a \<in> touched m \<longrightarrow> neighbour m a d = Some b \<longrightarrow> b \<in> touched m"
    using assms(2) by (auto simp: touched_def dest: neighbour_cells)
  from grid_closed [OF this s] s have "cells m \<subseteq> touched m" by (simp add: touched_def)
  then show ?thesis by (auto simp: touched_def)
qed

lemma grow_loop_inv:
  "grow_inv m C \<Longrightarrow>
   \<exists>m' r'. grow_loop wh wl m C r = (Inr (), m', r') \<and> tree_inv m' \<and> touched m' = cells m' \<and>
            frame m' = frame m"
proof (induction wh wl m C r rule: grow_loop.induct)
  case (1 wh wl m C r)
  show ?case
  proof (cases "C = []")
    case True
    with "1.prems" have "tree_inv m"
      "\<forall>a \<in> touched m. \<forall>d b. neighbour m a d = Some b \<longrightarrow> workedOn (tile m b)"
      by (simp_all add: grow_inv_def)
    then have "touched m = cells m" by (rule all_touched)
    with True \<open>tree_inv m\<close> show ?thesis by (subst grow_loop.simps) simp
  next
    case False
    from grow_body_inv [OF "1.prems" False, of wh wl r]
    obtain m1 C1 r1 where body: "grow_body wh wl m C r = (Inr (), m1, C1, r1)"
      and inv1: "grow_inv m1 C1" and fr1: "frame m1 = frame m" by blast
    from False have pos: "0 < length C" by simp
    from "1.IH" [OF pos body [symmetric] refl refl refl inv1]
    obtain m' r' where "grow_loop wh wl m1 C1 r1 = (Inr (), m', r')" "tree_inv m'"
      "touched m' = cells m'" "frame m' = frame m1" by blast
    with False body fr1 show ?thesis by (subst grow_loop.simps) simp
  qed
qed

lemma distinct_neighbours_of:
  assumes "populated m" "a \<in> cells m"
  shows "distinct (neighbours_of m a)"
proof -
  from assms have c: "coordinateX (tile m a) = fst a" "coordinateY (tile m a) = snd a"
    by (simp_all add: populated_def)
  show ?thesis by (auto simp: neighbours_of_def getNextTiles_def c)
qed

lemma neighbours_of_frame:
  assumes "populated m" "populated m'" "frame m' = frame m" "a \<in> cells m"
  shows "set (neighbours_of m' a) = set (neighbours_of m a)"
  using neighbours_of_populated [OF assms(1,4)] neighbours_of_populated [OF assms(2), of a]
    frame_eqD(6,7) [OF assms(3)] assms(4) by simp

lemma simple_body_inv:
  assumes "simple_inv m F" "F \<noteq> []"
  shows "\<exists>m' F' r'. simple_body m F r = (Inr (), m', F', r') \<and> simple_inv m' F' \<and>
           frame m' = frame m"
proof -
  from assms have inv: "tree_inv m" and dF: "distinct F"
    and sF: "set F = {b \<in> cells m. \<not> workedOn (tile m b) \<and>
                (\<exists>a \<in> touched m. \<exists>d. neighbour m a d = Some b)}"
    by (simp_all add: simple_inv_def)
  from inv have pop: "populated m" by (simp add: tree_inv_def)
  obtain sh r1 where shf: "rnd_shuffle F r = (sh, r1)" by (cases "rnd_shuffle F r")
  from rnd_shuffle_props [of F r] shf dF
  have len: "length sh = length F" and st: "set sh = set F" and dsh: "distinct sh" by simp_all
  from len assms(2) have ne: "sh \<noteq> []" by auto
  define t where "t = last sh"
  define F1 where "F1 = butlast sh"
  have sh: "sh = F1 @ [t]" using ne by (simp add: t_def F1_def)
  from dsh sh have tF1: "t \<notin> set F1" and dF1: "distinct F1" by auto
  from st sh have setF: "set F = insert t (set F1)" by auto
  then have "t \<in> set F" by simp
  with sF obtain a0 d0 where tc: "t \<in> cells m" and tw: "\<not> workedOn (tile m t)"
    and a0: "a0 \<in> touched m" "neighbour m a0 d0 = Some t" by auto
  have vt: "valid_ref m t" using pop tc by (simp add: valid_ref_cells)
  define m1 where "m1 = set_workedOn m t"
  have w1: "workedOn (tile m1 q) \<longleftrightarrow> q = t \<or> workedOn (tile m q)" for q
    using vt by (simp add: m1_def workedOn_set_workedOn)
  have nb1: "neighbours_of m1 t = neighbours_of m t" by (simp add: m1_def)
  have nbs: "set (neighbours_of m t) = {b. \<exists>d. neighbour m t d = Some b}"
    by (rule neighbours_of_populated [OF pop tc])
  have tnb: "t \<notin> set (neighbours_of m t)" using nbs by (auto dest: neighbour_neq)
  define wl where "wl = filter (\<lambda>q. workedOn (tile m1 q)) (neighbours_of m1 t)"
  define new where "new = filter (\<lambda>q. \<not> workedOn (tile m1 q) \<and> q \<notin> set F1) (neighbours_of m1 t)"
  have a0c: "a0 \<in> cells m" using a0(1) by (simp add: touched_def)
  have "neighbour m t (opposite d0) = Some a0" using a0(2) a0c by (rule neighbour_back)
  then have "a0 \<in> set (neighbours_of m t)" using nbs by blast
  moreover have "workedOn (tile m1 a0)" using a0(1) by (simp add: w1 touched_def)
  ultimately have a0wl: "a0 \<in> set wl" by (simp add: wl_def nb1)
  then have wlne: "wl \<noteq> []" by auto
  have wl_sub: "c \<in> set wl \<Longrightarrow> c \<in> touched m \<and> t \<in> set (neighbours_of m c)" for c
  proof -
    assume "c \<in> set wl"
    then have cn: "c \<in> set (neighbours_of m t)" and "workedOn (tile m1 c)"
      by (simp_all add: wl_def nb1)
    with tnb have cw: "workedOn (tile m c)" by (auto simp: w1)
    from cn obtain d where d: "neighbour m t d = Some c" using nbs by blast
    then have cc: "c \<in> cells m" using tc by (rule neighbour_cells)
    have "neighbour m c (opposite d) = Some t" using d tc by (rule neighbour_back)
    then have "t \<in> set (neighbours_of m c)" using neighbours_of_populated [OF pop cc] by blast
    with cc cw show ?thesis by (simp add: touched_def)
  qed
  have body_eq: "simple_body m F r =
      (if length wl > 1 then
         (case rnd_choice wl r1 of
            (Inl e, r2) \<Rightarrow> (Inl e, m1, F1 @ new, r2)
          | (Inr connectTile, r2) \<Rightarrow> (Inr (), connectTiles m1 t connectTile, F1 @ new, r2))
       else
         (case wl of
            [] \<Rightarrow> (Inl IndexError, m1, F1 @ new, r1)
          | connectTile # _ \<Rightarrow> (Inr (), connectTiles m1 t connectTile, F1 @ new, r1)))"
    using shf ne unfolding simple_body_def wl_def new_def m1_def t_def F1_def
    by (simp add: Let_def)
  obtain c r2 where body: "simple_body m F r = (Inr (), connectTiles m1 t c, F1 @ new, r2)"
    and cwl: "c \<in> set wl"
  proof (cases "length wl > 1")
    case True
    obtain c r2 where ch: "rnd_choice wl r1 = (Inr c, r2)" and "c \<in> set wl"
      using rnd_choice_total [OF wlne] by blast
    with True have "simple_body m F r = (Inr (), connectTiles m1 t c, F1 @ new, r2)"
      unfolding body_eq by simp
    with \<open>c \<in> set wl\<close> that show ?thesis by blast
  next
    case False
    obtain c rest where wl: "wl = c # rest" using wlne by (cases wl) auto
    with False have "simple_body m F r = (Inr (), connectTiles m1 t c, F1 @ new, r1)"
      unfolding body_eq by simp
    with wl that show ?thesis by auto
  qed
  let ?m' = "connectTiles m1 t c"
  from wl_sub [OF cwl] have ct: "c \<in> touched m" and tn: "t \<in> set (neighbours_of m c)" by simp_all
  have at: "tree_inv ?m' \<and> frame ?m' = frame m \<and> touched ?m' = insert t (touched m)"
    by (rule add_tile [OF inv ct tn tw]) (simp add: m1_def)
  then have inv': "tree_inv ?m'" and fr: "frame ?m' = frame m"
    and tch: "touched ?m' = insert t (touched m)" by simp_all
  note eq = frame_eqD [OF fr]
  have w': "workedOn (tile ?m' q) \<longleftrightarrow> q = t \<or> workedOn (tile m q)" for q
    by (simp add: w1)
  have dnew: "distinct new" using distinct_neighbours_of [OF pop tc] by (simp add: new_def nb1)
  have "distinct (F1 @ new)" using dF1 dnew by (auto simp: new_def)
  moreover have "set (F1 @ new) = {b \<in> cells ?m'. \<not> workedOn (tile ?m' b) \<and>
                (\<exists>a \<in> touched ?m'. \<exists>d. neighbour ?m' a d = Some b)}" (is "?L = ?R")
  proof (intro set_eqI iffI)
    fix b assume "b \<in> ?L"
    then consider "b \<in> set F1" | "b \<in> set new" by auto
    then show "b \<in> ?R"
    proof cases
      case 1
      with setF tF1 have "b \<in> set F" "b \<noteq> t" by auto
      with sF show ?thesis unfolding eq tch by (auto simp: w' w1)
    next
      case 2
      then have "b \<in> set (neighbours_of m t)" "\<not> workedOn (tile m1 b)"
        by (simp_all add: new_def nb1)
      then obtain d where "neighbour m t d = Some b" "b \<noteq> t" "\<not> workedOn (tile m b)"
        using nbs w1 by blast
      moreover then have "b \<in> cells m" using tc by (blast intro: neighbour_cells)
      ultimately show ?thesis unfolding eq tch by (auto simp: w' w1)
    qed
  next
    fix b assume "b \<in> ?R"
    then have b: "b \<in> cells m" "b \<noteq> t" "\<not> workedOn (tile m b)"
      and ex: "\<exists>a. (a = t \<or> a \<in> touched m) \<and> (\<exists>d. neighbour m a d = Some b)"
      unfolding eq tch by (auto simp: w' w1 simp del: split_paired_Ex)
    from ex obtain a d where a: "a = t \<or> a \<in> touched m" "neighbour m a d = Some b"
      by blast
    show "b \<in> ?L"
    proof (cases "b \<in> set F1")
      case True then show ?thesis by simp
    next
      case False
      with setF b(2) have "b \<notin> set F" by simp
      with sF b a have "a = t" by blast
      with a(2) have "b \<in> set (neighbours_of m t)" using nbs by blast
      with False b show ?thesis by (simp add: new_def nb1 w1)
    qed
  qed
  ultimately have "simple_inv ?m' (F1 @ new)" using inv' by (simp add: simple_inv_def)
  with body fr show ?thesis by blast
qed

lemma simple_loop_inv:
  "simple_inv m F \<Longrightarrow>
   \<exists>m' r'. simple_loop m F r = (Inr (), m', r') \<and> tree_inv m' \<and> touched m' = cells m' \<and>
            frame m' = frame m"
proof (induction m F r rule: simple_loop.induct)
  case (1 m F r)
  show ?case
  proof (cases "F = []")
    case True
    with "1.prems" have ti: "tree_inv m"
      and "{b \<in> cells m. \<not> workedOn (tile m b) \<and>
                (\<exists>a \<in> touched m. \<exists>d. neighbour m a d = Some b)} = {}"
      by (simp_all add: simple_inv_def)
    then have emp: "\<And>b. b \<in> cells m \<Longrightarrow> \<not> workedOn (tile m b) \<Longrightarrow>
        (\<exists>a \<in> touched m. \<exists>d. neighbour m a d = Some b) \<Longrightarrow> False" by blast
    have "workedOn (tile m b)" if "a \<in> touched m" "neighbour m a d = Some b" for a d b
    proof (rule ccontr)
      assume nw: "\<not> workedOn (tile m b)"
      from that have "b \<in> cells m" by (auto simp: touched_def dest: neighbour_cells)
      from emp [OF this nw] that show False by blast
    qed
    then have "\<forall>a \<in> touched m. \<forall>d b. neighbour m a d = Some b \<longrightarrow> workedOn (tile m b)"
      by blast
    with ti have "touched m = cells m" by (rule all_touched)
    with True ti show ?thesis by (subst simple_loop.simps) simp
  next
    case False
    from simple_body_inv [OF "1.prems" False, of r]
    obtain m1 F1 r1 where body: "simple_body m F r = (Inr (), m1, F1, r1)"
      and inv1: "simple_inv m1 F1" and fr1: "frame m1 = frame m" by blast
    from False have pos: "0 < length F" by simp
    from "1.IH" [OF pos body [symmetric] refl refl refl inv1]
    obtain m' r' where "simple_loop m1 F1 r1 = (Inr (), m', r')" "tree_inv m'"
      "touched m' = cells m'" "frame m' = frame m1" by blast
    with False body fr1 show ?thesis by (subst simple_loop.simps) simp
  qed
qed

lemma pick_positions_result:
  assumes "pick_positions st en r = Some y"
  shows "st \<noteq> [] \<and> en \<noteq> [] \<longrightarrow>
         (\<exists>e x r'. y = (Inr (e, x), r') \<and> e \<in> set st \<and> x \<in> set en \<and> e \<noteq> x)"
proof (rule pick_positions.raw_induct
    [where P = "\<lambda>st en r y. st \<noteq> [] \<and> en \<noteq> [] \<longrightarrow>
         (\<exists>e x r'. y = (Inr (e, x), r') \<and> e \<in> set st \<and> x \<in> set en \<and> e \<noteq> x)",
      OF _ assms])
  fix pick :: "pos list \<Rightarrow> pos list \<Rightarrow> rng \<Rightarrow> ((error + pos \<times> pos) \<times> rng) option"
    and st en r y
  assume IH: "\<And>st en r y. pick st en r = Some y \<Longrightarrow> st \<noteq> [] \<and> en \<noteq> [] \<longrightarrow>
         (\<exists>e x r'. y = (Inr (e, x), r') \<and> e \<in> set st \<and> x \<in> set en \<and> e \<noteq> x)"
    and step: "(case rnd_choice st r of
        (Inl e, r1) \<Rightarrow> Some (Inl e, r1)
      | (Inr entry_pos, r1) \<Rightarrow>
          (case rnd_choice en r1 of
             (Inl e, r2) \<Rightarrow> Some (Inl e, r2)
           | (Inr exit_pos, r2) \<Rightarrow>
               if entry_pos \<noteq> exit_pos then Some (Inr (entry_pos, exit_pos), r2)
               else pick st en r2)) = Some y"
  show "st \<noteq> [] \<and> en \<noteq> [] \<longrightarrow>
         (\<exists>e x r'. y = (Inr (e, x), r') \<and> e \<in> set st \<and> x \<in> set en \<and> e \<noteq> x)"
  proof
    assume ne: "st \<noteq> [] \<and> en \<noteq> []"
    let ?e = "st ! (shd r mod length st)"
    let ?x = "en ! (shd (stl r) mod length en)"
    from ne have mem: "?e \<in> set st" "?x \<in> set en" by simp_all
    show "\<exists>e x r'. y = (Inr (e, x), r') \<and> e \<in> set st \<and> x \<in> set en \<and> e \<noteq> x"
    proof (cases "?e = ?x")
      case True
      with step ne have "pick st en (stl (stl r)) = Some y" by (simp add: rnd_choice_def)
      from IH [OF this] ne show ?thesis by blast
    next
      case False
      with step ne have "y = (Inr (?e, ?x), stl (stl r))" by (simp add: rnd_choice_def)
      with mem False show ?thesis by blast
    qed
  qed
qed

lemma get_wall_tiles_boundary:
  assumes "1 \<le> sizeX m" "1 \<le> sizeY m"
  shows "get_wall_tiles m w \<noteq> []"
    and "p \<in> set (get_wall_tiles m w) \<Longrightarrow>
         p \<in> cells m \<and> neighbour m p (outward_direction m p) = None"
proof -
  show "get_wall_tiles m w \<noteq> []" using assms by (simp add: get_wall_tiles_def)
  assume "p \<in> set (get_wall_tiles m w)"
  then have "p \<in> cells m \<and> (snd p = 0 \<or> snd p = sizeY m - 1 \<or> fst p = 0 \<or> fst p = sizeX m - 1)"
    using assms by (auto simp: get_wall_tiles_def cells_def split: if_splits)
  then show "p \<in> cells m \<and> neighbour m p (outward_direction m p) = None"
    by (auto simp: outward_direction_def neighbour_def cells_def)
qed

lemma frame_mark [simp]: "frame (mark_boundary_tile m p b) = frame m"
  by (simp add: mark_boundary_tile_def)

lemma valid_ref_mark [simp]: "valid_ref (mark_boundary_tile m p b) q = valid_ref m q"
  by (simp add: mark_boundary_tile_def)

lemma workedOn_mark [simp]:
  "workedOn (tile (mark_boundary_tile m p b) q) = workedOn (tile m q)"
  by (simp add: mark_boundary_tile_def tile_upd)

lemma is_entry_mark:
  "valid_ref m p \<Longrightarrow> is_entry (tile (mark_boundary_tile m p b) q) =
     (if q = p then Some b else is_entry (tile m q))"
  by (simp add: mark_boundary_tile_def tile_upd)

lemma populated_mark: "populated m \<Longrightarrow> populated (mark_boundary_tile m p b)"
  unfolding mark_boundary_tile_def
  by (rule populated_append_connection, rule populated_upd) simp_all

lemma connections_upd_entry [simp]:
  "connections (upd_tile m p (\<lambda>t. t\<lparr>is_entry := v\<rparr>)) q = connections m q"
  by (simp add: connections_def tile_upd)

lemma connections_mark:
  "valid_ref m p \<Longrightarrow> connections (mark_boundary_tile m p b) q =
     (if q = p then connections m p @ [outward_direction m p] else connections m q)"
  by (simp add: mark_boundary_tile_def connections_append_connection)

lemma outward_direction_frame: "frame m' = frame m \<Longrightarrow> outward_direction m' = outward_direction m"
  using frame_eqD(2) [of m' m] by (simp add: outward_direction_def fun_eq_iff)

lemma makeEntryandExit_result:
  assumes pop: "populated m" and sz: "1 \<le> sizeX m" "1 \<le> sizeY m"
    and run: "makeEntryandExit m r = Some (res, m', r')"
  shows "res = Inr True \<and> frame m' = frame m \<and> populated m' \<and>
         (\<forall>q. workedOn (tile m' q) = workedOn (tile m q)) \<and>
         (\<exists>e x. e \<in> cells m \<and> x \<in> cells m \<and> e \<noteq> x \<and>
            neighbour m e (outward_direction m e) = None \<and>
            neighbour m x (outward_direction m x) = None \<and>
            (\<forall>q. connections m' q =
               (if q = e then connections m e @ [outward_direction m e]
                else if q = x then connections m x @ [outward_direction m x]
                else connections m q)) \<and>
            (\<forall>q. is_entry (tile m' q) =
               (if q = x then Some False else if q = e then Some True
                else is_entry (tile m q))))"
proof -
  let ?st = "get_wall_tiles m (start_wall m)" and ?en = "get_wall_tiles m (end_wall m)"
  from run obtain y where pk: "pick_positions ?st ?en r = Some y"
    by (auto simp: makeEntryandExit_def split: option.splits)
  from pick_positions_result [OF pk] get_wall_tiles_boundary(1) [OF sz]
  obtain e x r2 where y: "y = (Inr (e, x), r2)" and e: "e \<in> set ?st" and x: "x \<in> set ?en"
    and ex: "e \<noteq> x" by blast
  from get_wall_tiles_boundary(2) [OF sz e] get_wall_tiles_boundary(2) [OF sz x]
  have ec: "e \<in> cells m" and eo: "neighbour m e (outward_direction m e) = None"
    and xc: "x \<in> cells m" and xo: "neighbour m x (outward_direction m x) = None" by simp_all
  have ve: "valid_ref m e" and vx: "valid_ref m x" using pop ec xc by (simp_all add: valid_ref_cells)
  let ?m1 = "mark_boundary_tile m e True"
  from run pk y ve vx have res: "res = Inr True" and m': "m' = mark_boundary_tile ?m1 x False"
    by (simp_all add: makeEntryandExit_def Let_def)
  have vx1: "valid_ref ?m1 x" using vx by simp
  have od: "outward_direction ?m1 = outward_direction m"
    by (rule outward_direction_frame) simp
  have conn: "\<forall>q. connections m' q =
               (if q = e then connections m e @ [outward_direction m e]
                else if q = x then connections m x @ [outward_direction m x]
                else connections m q)"
    using ex by (simp add: m' connections_mark [OF vx1] connections_mark [OF ve] od)
  have ent: "\<forall>q. is_entry (tile m' q) =
               (if q = x then Some False else if q = e then Some True
                else is_entry (tile m q))"
    by (simp add: m' is_entry_mark [OF vx1] is_entry_mark [OF ve])
  have "frame m' = frame m" "populated m'" "\<forall>q. workedOn (tile m' q) = workedOn (tile m q)"
    using pop by (simp_all add: m' populated_mark)
  with res ec xc ex eo xo conn ent show ?thesis by blast
qed

declare simple_loop.simps [simp del] grow_loop.simps [simp del]

lemma card_cells: "card (cells m) = sizeX m * sizeY m"
proof -
  have "cells m = {..<sizeX m} \<times> {..<sizeY m}" by (auto simp: cells_def)
  then show ?thesis by simp
qed

lemma done_update [simp]:
  "tile (m\<lparr>mazeIsDone := b\<rparr>) = tile m"
  "cells (m\<lparr>mazeIsDone := b\<rparr>) = cells m"
  "neighbour (m\<lparr>mazeIsDone := b\<rparr>) = neighbour m"
  "connections (m\<lparr>mazeIsDone := b\<rparr>) = connections m"
  "outward_direction (m\<lparr>mazeIsDone := b\<rparr>) = outward_direction m"
  by (simp_all add: tile_def cells_def neighbour_def connections_def outward_direction_def fun_eq_iff)

lemma done_update_props [simp]:
  "populated (m\<lparr>mazeIsDone := b\<rparr>) = populated m"
  "symmetric_connections (m\<lparr>mazeIsDone := b\<rparr>) = symmetric_connections m"
  "no_duplicates (m\<lparr>mazeIsDone := b\<rparr>) = no_duplicates m"
  "passage (m\<lparr>mazeIsDone := b\<rparr>) = passage m"
  "outward (m\<lparr>mazeIsDone := b\<rparr>) = outward m"
  by (simp_all add: populated_def symmetric_connections_def no_duplicates_def passage_def
      outward_def fun_eq_iff)

lemma done_update_graph [simp]:
  "edges (m\<lparr>mazeIsDone := b\<rparr>) = edges m"
  "maze_connected (m\<lparr>mazeIsDone := b\<rparr>) = maze_connected m"
  "placed (m\<lparr>mazeIsDone := b\<rparr>) = placed m"
  by (simp_all add: edges_def maze_connected_def placed_def fun_eq_iff)

lemma boundary_placed:
  assumes inv: "tree_inv m" and all: "touched m = cells m"
    and pop': "populated m'" and fr: "frame m' = frame m"
    and e: "e \<in> cells m" "neighbour m e (outward_direction m e) = None"
    and x: "x \<in> cells m" "neighbour m x (outward_direction m x) = None" and ex: "e \<noteq> x"
    and conn: "\<forall>q. connections m' q =
               (if q = e then connections m e @ [outward_direction m e]
                else if q = x then connections m x @ [outward_direction m x]
                else connections m q)"
    and ent: "\<forall>q. is_entry (tile m' q) =
               (if q = x then Some False else if q = e then Some True
                else is_entry (tile m q))"
  shows "symmetric_connections m' \<and> no_duplicates m' \<and> maze_connected m' \<and>
         card (edges m') + 1 = sizeX m' * sizeY m' \<and> placed m' e x"
proof -
  note eq = frame_eqD [OF fr]
  have od: "outward_direction m' = outward_direction m" by (rule outward_direction_frame [OF fr])
  from inv have sym: "symmetric_connections m" and nd: "no_duplicates m"
    and int: "\<And>a d. a \<in> cells m \<Longrightarrow> d \<in> set (connections m a) \<Longrightarrow> neighbour m a d \<noteq> None"
    and ent0: "\<And>a. a \<in> cells m \<Longrightarrow> is_entry (tile m a) = None"
    and reach: "\<And>a b. a \<in> touched m \<Longrightarrow> b \<in> touched m \<Longrightarrow> (a, b) \<in> (passage m)\<^sup>*"
    and cnt: "card (edges m) + 1 = card (touched m)"
    by (simp_all add: tree_inv_def)
  have mono: "set (connections m q) \<subseteq> set (connections m' q)" for q
    using spec [OF conn, of q] by auto
  have old: "d \<in> set (connections m q)"
    if "d \<in> set (connections m' q)" "neighbour m q d = Some b" for d q b
    using that spec [OF conn, of q] e(2) x(2) by (auto split: if_splits)
  have filt: "filter (\<lambda>d. neighbour m q d = None) (connections m q) = []" if "q \<in> cells m" for q
    using int [OF that] by (auto simp: filter_empty_conv)
  have sym': "symmetric_connections m'"
    unfolding symmetric_connections_def eq
  proof (intro ballI allI impI)
    fix a d b assume a: "a \<in> cells m" "d \<in> set (connections m' a)" "neighbour m a d = Some b"
    from old [OF a(2,3)] have "d \<in> set (connections m a)" .
    from symmetricD [OF sym a(1) this a(3)] mono show "opposite d \<in> set (connections m' b)"
      by blast
  qed
  have pass: "passage m' = passage m"
  proof -
    have "(a, b) \<in> passage m' \<longleftrightarrow> (a, b) \<in> passage m" for a b
      unfolding passage_symmetric [OF sym'] passage_symmetric [OF sym] eq
      using old mono by blast
    then show ?thesis by auto
  qed
  have nd': "no_duplicates m'"
    unfolding no_duplicates_def eq
  proof
    fix q assume q: "q \<in> cells m"
    from nd q have dq: "distinct (connections m q)" by (simp add: no_duplicates_def)
    have "outward_direction m e \<notin> set (connections m e)" using int [OF e(1)] e(2) by blast
    moreover have "outward_direction m x \<notin> set (connections m x)" using int [OF x(1)] x(2) by blast
    ultimately show "distinct (connections m' q)" using dq spec [OF conn, of q]
      by auto
  qed
  have con': "maze_connected m'"
    unfolding maze_connected_def pass eq using reach all by blast
  have "card (edges m') + 1 = sizeX m' * sizeY m'"
    using cnt all by (simp add: edges_def pass card_cells eq)
  moreover have "placed m' e x"
    unfolding placed_def eq od outward_def
    using e x ex ent ent0 filt by (simp add: conn del: split_paired_All)
  ultimately show ?thesis using sym' nd' con' by blast
qed

lemma formation_finish:
  assumes inv: "tree_inv m" and all: "touched m = cells m"
    and sz: "1 \<le> sizeX m" "1 \<le> sizeY m"
    and fin: "finish_formation (Inr (), m, r) = Some (res, m', r')"
  shows "res = Inr True \<and> well_formed m' \<and> sizeX m' = sizeX m \<and> sizeY m' = sizeY m"
proof -
  from inv have pop: "populated m" by (simp add: tree_inv_def)
  from fin obtain res4 m4 where run: "makeEntryandExit m r = Some (res4, m4, r')"
    by (auto simp: finish_formation_def split: option.splits sum.splits)
  from makeEntryandExit_result [OF pop sz run]
  obtain e x where r4: "res4 = Inr True" and fr: "frame m4 = frame m" and pop4: "populated m4"
    and e: "e \<in> cells m" "neighbour m e (outward_direction m e) = None"
    and x: "x \<in> cells m" "neighbour m x (outward_direction m x) = None" and ex: "e \<noteq> x"
    and conn: "\<forall>q. connections m4 q =
               (if q = e then connections m e @ [outward_direction m e]
                else if q = x then connections m x @ [outward_direction m x]
                else connections m q)"
    and ent: "\<forall>q. is_entry (tile m4 q) =
               (if q = x then Some False else if q = e then Some True
                else is_entry (tile m q))" by blast
  from fin run r4 have res: "res = Inr True" and m': "m' = m4\<lparr>mazeIsDone := True\<rparr>"
    by (simp_all add: finish_formation_def)
  from boundary_placed [OF inv all pop4 fr e x ex conn ent]
  have "symmetric_connections m4 \<and> no_duplicates m4 \<and> maze_connected m4 \<and>
         card (edges m4) + 1 = sizeX m4 * sizeY m4 \<and> placed m4 e x" .
  then have "well_formed m'"
    unfolding well_formed_def m' using pop4 sz frame_eqD(1,2) [OF fr]
    by (simp del: split_paired_Ex) blast
  with res m' frame_eqD(1,2) [OF fr] show ?thesis by simp
qed

lemma formation_postcondition:
  assumes u: "unformed m0"
    and run: "makeMazeSimple m0 r = Some (res, m1, r1) \<or>
              makeMazeGrowTree m0 weightHigh weightLow r = Some (res, m1, r1)"
  shows "res = Inr True \<and> well_formed m1 \<and> sizeX m1 = sizeX m0 \<and> sizeY m1 = sizeY m0"
proof -
  note pp = populate_props [OF u]
  from u have sz: "1 \<le> sizeX m0" "1 \<le> sizeY m0" and nd: "\<not> mazeIsDone m0"
    by (simp_all add: unformed_def)
  obtain s r0 where ch: "choose_startingtile (populate m0) r = (Inr s, r0)"
    and sc: "s \<in> cells (populate m0)"
    using choose_startingtile_cells [of "populate m0" r] pp sz by auto
  have c0: "cells (populate m0) = cells m0" using pp by (simp add: cells_def)
  let ?m2 = "set_workedOn (populate m0) s"
  have ti: "tree_inv ?m2" using tree_inv_start [OF u] sc c0 by simp
  have fr2: "frame ?m2 = frame m0" by (simp add: frame_populate)
  from ti have pop2: "populated ?m2" by (simp add: tree_inv_def)
  have tch: "touched ?m2 = {s}"
    using pp(7) sc c0 valid_ref_cells [OF pp(1)]
    by (auto simp: touched_def workedOn_set_workedOn new_MazeTile_def)
  from run show ?thesis
  proof
    assume "makeMazeSimple m0 r = Some (res, m1, r1)"
    with nd ch have fin: "finish_formation (simple_loop ?m2 (neighbours_of ?m2 s) r0) =
        Some (res, m1, r1)"
      by (simp add: makeMazeSimple_def Let_def)
    have sc2: "s \<in> cells ?m2" using sc by simp
    have wo: "workedOn (tile ?m2 b) \<longleftrightarrow> b = s" if "b \<in> cells m0" for b
      using pp(7) [OF that] sc c0 valid_ref_cells [OF pp(1), of s]
      by (simp add: workedOn_set_workedOn new_MazeTile_def)
    have nbs: "set (neighbours_of ?m2 s) = {b. \<exists>d. neighbour ?m2 s d = Some b}"
      by (rule neighbours_of_populated [OF pop2 sc2])
    have "set (neighbours_of ?m2 s) =
        {b \<in> cells ?m2. \<not> workedOn (tile ?m2 b) \<and>
           (\<exists>a \<in> {s}. \<exists>d. neighbour ?m2 a d = Some b)}"
    proof (intro set_eqI iffI)
      fix b assume "b \<in> set (neighbours_of ?m2 s)"
      then obtain d where d: "neighbour ?m2 s d = Some b" unfolding nbs by blast
      then have "b \<in> cells ?m2" "b \<noteq> s" using sc2 by (auto dest: neighbour_cells neighbour_neq)
      with d wo [of b] c0
      show "b \<in> {b \<in> cells ?m2. \<not> workedOn (tile ?m2 b) \<and>
           (\<exists>a \<in> {s}. \<exists>d. neighbour ?m2 a d = Some b)}" by auto
    next
      fix b assume "b \<in> {b \<in> cells ?m2. \<not> workedOn (tile ?m2 b) \<and>
           (\<exists>a \<in> {s}. \<exists>d. neighbour ?m2 a d = Some b)}"
      then show "b \<in> set (neighbours_of ?m2 s)" unfolding nbs by blast
    qed
    then have "simple_inv ?m2 (neighbours_of ?m2 s)"
      unfolding simple_inv_def tch
      using ti distinct_neighbours_of [OF pop2 sc2] by blast
    from simple_loop_inv [OF this, of r0]
    obtain m3 r3 where lp: "simple_loop ?m2 (neighbours_of ?m2 s) r0 = (Inr (), m3, r3)"
      and inv3: "tree_inv m3" and all3: "touched m3 = cells m3" and fr3: "frame m3 = frame ?m2"
      by blast
    have sz3: "1 \<le> sizeX m3" "1 \<le> sizeY m3" "sizeX m3 = sizeX m0" "sizeY m3 = sizeY m0"
      using frame_eqD(1,2) [OF fr3] frame_eqD(1,2) [OF fr2] sz by simp_all
    from formation_finish [OF inv3 all3 sz3(1,2)] fin lp sz3 show ?thesis by simp
  next
    assume "makeMazeGrowTree m0 weightHigh weightLow r = Some (res, m1, r1)"
    with nd ch have fin: "finish_formation (grow_loop weightHigh weightLow ?m2 [s] r0) =
        Some (res, m1, r1)"
      by (simp add: makeMazeGrowTree_def Let_def)
    have "grow_inv ?m2 [s]" unfolding grow_inv_def tch using ti by simp
    from grow_loop_inv [OF this, of weightHigh weightLow r0]
    obtain m3 r3 where lp: "grow_loop weightHigh weightLow ?m2 [s] r0 = (Inr (), m3, r3)"
      and inv3: "tree_inv m3" and all3: "touched m3 = cells m3" and fr3: "frame m3 = frame ?m2"
      by blast
    have sz3: "1 \<le> sizeX m3" "1 \<le> sizeY m3" "sizeX m3 = sizeX m0" "sizeY m3 = sizeY m0"
      using frame_eqD(1,2) [OF fr3] frame_eqD(1,2) [OF fr2] sz by simp_all
    from formation_finish [OF inv3 all3 sz3(1,2)] fin lp sz3 show ?thesis by simp
  qed
qed

declare split_paired_All [simp del] split_paired_Ex [simp del]

lemma extends_refl: "populated m \<Longrightarrow> extends m m"
  by (simp add: extends_def)

lemma extends_trans: "extends m m' \<Longrightarrow> extends m' m'' \<Longrightarrow> extends m m''"
  unfolding extends_def
proof (intro conjI allI)
  fix q
  assume a: "frame m' = frame m \<and> populated m' \<and>
     (\<forall>q. \<exists>ys. connections m' q = connections m q @ ys) \<and>
     (\<forall>q. is_entry (tile m' q) = is_entry (tile m q))"
    and b: "frame m'' = frame m' \<and> populated m'' \<and>
     (\<forall>q. \<exists>ys. connections m'' q = connections m' q @ ys) \<and>
     (\<forall>q. is_entry (tile m'' q) = is_entry (tile m' q))"
  from a b show "frame m'' = frame m" "populated m''" by simp_all
  from a obtain ys where "connections m' q = connections m q @ ys" by blast
  moreover from b obtain zs where "connections m'' q = connections m' q @ zs" by blast
  ultimately have "connections m'' q = connections m q @ (ys @ zs)" by simp
  then show "\<exists>ys. connections m'' q = connections m q @ ys" by blast
  from a b show "is_entry (tile m'' q) = is_entry (tile m q)"
    by (simp del: split_paired_All)
qed

lemma connectTilesWithString_neighbour:
  assumes "populated m" "t \<in> cells m"
  shows "connectTilesWithString m t d =
     (case neighbour m t d of
        None \<Rightarrow> (Inl cannot_connect, m)
      | Some b \<Rightarrow> (Inr True, append_connection (append_connection m b (opposite d)) t d))"
proof -
  from assms have c: "coordinateX (tile m t) = fst t" "coordinateY (tile m t) = snd t"
    by (simp_all add: populated_def)
  have v: "valid_ref m p \<longleftrightarrow> p \<in> cells m" for p by (rule valid_ref_cells [OF assms(1)])
  from assms(2) show ?thesis
    by (cases d)
       (auto simp: connectTilesWithString_def Let_def c v neighbour_def opposite_def cells_def)
qed

lemma try_directions_result:
  assumes "populated m" "t \<in> cells m" "try_directions m t ds = (res, m')"
  shows "res = Inr () \<and>
         (m' = m \<and> (\<forall>d \<in> set ds. neighbour m t d = None) \<or>
          (\<exists>d b. d \<in> set ds \<and> neighbour m t d = Some b \<and>
             m' = append_connection (append_connection m b (opposite d)) t d))"
  using assms(3)
proof (induction ds)
  case Nil
  then show ?case by simp
next
  case (Cons d ds)
  show ?case
  proof (cases "neighbour m t d")
    case None
    with Cons.prems have "try_directions m t ds = (res, m')"
      by (simp add: connectTilesWithString_neighbour [OF assms(1,2)] cannot_connect_def)
    from Cons.IH [OF this] None show ?thesis by (simp del: split_paired_Ex) blast
  next
    case (Some b)
    with Cons.prems have "res = Inr ()"
      "m' = append_connection (append_connection m b (opposite d)) t d"
      by (simp_all add: connectTilesWithString_neighbour [OF assms(1,2)])
    with Some show ?thesis by (simp del: split_paired_Ex) blast
  qed
qed

lemma passage_opened:
  assumes pop: "populated m" and t: "t \<in> cells m" and n: "neighbour m t d = Some b"
    and m': "m' = append_connection (append_connection m b (opposite d)) t d"
  shows "frame m' = frame m" "populated m'"
    "connections m' q =
       (if q = t then connections m t @ [d]
        else if q = b then connections m b @ [opposite d] else connections m q)"
    "is_entry (tile m' q) = is_entry (tile m q)"
proof -
  from n t have b: "b \<in> cells m" by (rule neighbour_cells)
  have tb: "t \<noteq> b" using n by (rule neighbour_neq)
  have v: "valid_ref m t" "valid_ref m b" using pop t b by (simp_all add: valid_ref_cells)
  show "frame m' = frame m" "populated m'" "is_entry (tile m' q) = is_entry (tile m q)"
    using pop by (simp_all add: m')
  show "connections m' q =
       (if q = t then connections m t @ [d]
        else if q = b then connections m b @ [opposite d] else connections m q)"
    using v tb by (auto simp: m' connections_append_connection)
qed

lemma try_directions_extends:
  assumes "populated m" "t \<in> cells m" "try_directions m t ds = (res, m')"
  shows "res = Inr () \<and> extends m m'"
proof -
  from try_directions_result [OF assms]
  have res: "res = Inr ()" and alt: "m' = m \<or>
          (\<exists>d b. d \<in> set ds \<and> neighbour m t d = Some b \<and>
             m' = append_connection (append_connection m b (opposite d)) t d)" by auto
  from alt have "extends m m'"
  proof
    assume "m' = m" then show ?thesis using assms(1) by (simp add: extends_refl)
  next
    assume "\<exists>d b. d \<in> set ds \<and> neighbour m t d = Some b \<and>
             m' = append_connection (append_connection m b (opposite d)) t d"
    then obtain d b where n: "neighbour m t d = Some b"
      and m': "m' = append_connection (append_connection m b (opposite d)) t d" by blast
    note po = passage_opened [OF assms(1,2) n m']
    show ?thesis unfolding extends_def using po(1,2,4) by (auto simp: po(3))
  qed
  with res show ?thesis by simp
qed

lemma remove_values_result:
  "remove_values cs ds = Inr ds' \<Longrightarrow> distinct ds \<Longrightarrow>
   set ds' = set ds - set cs \<and> distinct ds'"
proof (induction cs arbitrary: ds)
  case Nil
  then show ?case by simp
next
  case (Cons c cs)
  from Cons.prems(1) have c: "c \<in> set ds" and r: "remove_values cs (remove1 c ds) = Inr ds'"
    by (auto simp: remove_value_def split: if_splits)
  from Cons.IH [OF r] Cons.prems(2) show ?case by auto
qed

lemma remove_values_total:
  "distinct cs \<Longrightarrow> set cs \<subseteq> set ds \<Longrightarrow> \<exists>ds'. remove_values cs ds = Inr ds'"
proof (induction cs arbitrary: ds)
  case Nil
  then show ?case by simp
next
  case (Cons c cs)
  then have dc: "distinct cs" and "c \<notin> set cs" and sub: "set cs \<subseteq> set ds" by auto
  have "set cs \<subseteq> set (remove1 c ds)"
  proof
    fix x assume x: "x \<in> set cs"
    with \<open>c \<notin> set cs\<close> have "x \<noteq> c" by blast
    with x sub show "x \<in> set (remove1 c ds)" by (auto simp: in_set_remove1)
  qed
  note dc this
  from Cons.IH [OF this] Cons.prems show ?case by (simp add: remove_value_def)
qed

lemma all_directions: "set [North, South, West, East] = UNIV"
proof -
  have "d \<in> set [North, South, West, East]" for d by (cases d) simp_all
  then show ?thesis by blast
qed

lemma add_connection_result:
  assumes "populated m" "t \<in> cells m" "add_connection m t (Inr ds) r = (res, m', r')"
  shows "res = Inr () \<and>
         (m' = m \<and> (\<forall>d \<in> set ds. neighbour m t d = None) \<or>
          (\<exists>d b. d \<in> set ds \<and> neighbour m t d = Some b \<and>
             m' = append_connection (append_connection m b (opposite d)) t d))"
proof -
  obtain sh r1 where sh: "rnd_shuffle ds r = (sh, r1)" by (cases "rnd_shuffle ds r")
  from rnd_shuffle_props [of ds r] sh have st: "set sh = set ds" by simp
  from assms(3) sh have "try_directions m t sh = (res, m')"
    by (simp add: add_connection_def split: prod.splits)
  from try_directions_result [OF assms(1,2) this] st show ?thesis by simp
qed

lemma braid_tile_cases:
  assumes pop: "populated m" and t: "t \<in> cells m"
    and run: "braid_dead_end t m r = (res, m', r') \<or> braid_loop_tile w t m r = (res, m', r')"
  shows "m' = m \<or>
         res = Inr () \<and> (\<exists>d b. d \<notin> set (connections m t) \<and> neighbour m t d = Some b \<and>
             m' = append_connection (append_connection m b (opposite d)) t d)"
  using run
proof
  assume a: "braid_dead_end t m r = (res, m', r')"
  show ?thesis
  proof (cases "length (connections m t) = 1")
    case False
    with a show ?thesis by (simp add: braid_dead_end_def connections_def)
  next
    case True
    then obtain d0 where d0: "connections m t = [d0]" by (cases "connections m t") auto
    have mem: "d0 \<in> set [North, South, West, East]" unfolding all_directions by simp
    let ?ds = "remove1 d0 [North, South, West, East]"
    from a True d0 mem have "add_connection m t (Inr ?ds) r = (res, m', r')"
      by (simp add: braid_dead_end_def connections_def [symmetric] remove_value_def
          del: remove1.simps)
    from add_connection_result [OF pop t this]
    show ?thesis using d0 by (auto simp del: remove1.simps)
  qed
next
  assume a: "braid_loop_tile w t m r = (res, m', r')"
  obtain u r1 where u: "rnd_random r = (u, r1)" by (cases "rnd_random r")
  show ?thesis
  proof (cases "real_of_int w \<ge> times_100 u")
    case False
    with a u show ?thesis by (simp add: braid_loop_tile_def)
  next
    case True
    show ?thesis
    proof (cases "remove_values (connections m t) [North, South, West, East]")
      case (Inl e)
      with a u True show ?thesis
        by (simp add: braid_loop_tile_def add_connection_def connections_def)
    next
      case (Inr ds)
      with a u True have "add_connection m t (Inr ds) r1 = (res, m', r')"
        by (simp add: braid_loop_tile_def connections_def)
      from add_connection_result [OF pop t this] remove_values_result [OF Inr]
      show ?thesis by auto
    qed
  qed
qed

lemma braid_tile_extends:
  assumes pop: "populated m" and t: "t \<in> cells m"
    and run: "braid_dead_end t m r = (res, m', r') \<or> braid_loop_tile w t m r = (res, m', r')"
  shows "extends m m'"
  using braid_tile_cases [OF assms]
proof
  assume "m' = m" then show ?thesis using pop by (simp add: extends_refl)
next
  assume "res = Inr () \<and> (\<exists>d b. d \<notin> set (connections m t) \<and> neighbour m t d = Some b \<and>
             m' = append_connection (append_connection m b (opposite d)) t d)"
  then obtain d b where n: "neighbour m t d = Some b"
    and m': "m' = append_connection (append_connection m b (opposite d)) t d" by blast
  note po = passage_opened [OF pop t n m']
  show ?thesis unfolding extends_def using po(1,2,4) by (auto simp: po(3))
qed

lemma for_tiles_extends:
  assumes step: "\<forall>t m r res m' r'. populated m \<longrightarrow> t \<in> cells m \<longrightarrow>
                   f t m r = (res, m', r') \<longrightarrow> extends m m'"
  shows "populated m \<Longrightarrow> set ts \<subseteq> cells m \<Longrightarrow> for_tiles f ts m r = (res, m', r') \<Longrightarrow>
         extends m m'"
proof (induction ts arbitrary: m r)
  case Nil
  then show ?case by (simp add: extends_refl)
next
  case (Cons t ts)
  obtain res1 m1 r1 where f: "f t m r = (res1, m1, r1)" by (cases "f t m r") auto
  from Cons.prems(2) have tc: "t \<in> cells m" by simp
  from step Cons.prems(1) tc f have e1: "extends m m1" by blast
  show ?case
  proof (cases res1)
    case (Inl e)
    with Cons.prems(3) f have "m' = m1" by simp
    with e1 show ?thesis by simp
  next
    case (Inr u)
    with Cons.prems(3) f have rest: "for_tiles f ts m1 r1 = (res, m', r')" by simp
    from e1 have p1: "populated m1" and fr: "frame m1 = frame m"
      by (simp_all add: extends_def)
    have c1: "cells m1 = cells m" by (rule frame_eqD(6) [OF fr])
    from Cons.prems(2) c1 have "set ts \<subseteq> cells m1" by simp
    from Cons.IH [OF p1 this rest] have "extends m1 m'" .
    with e1 show ?thesis by (rule extends_trans)
  qed
qed

lemma refs_cells:
  assumes "populated m"
  shows "set (concat (mazeList_refs m)) = cells m"
proof -
  from assms have len: "length (mazeList m) = sizeY m"
    and row: "\<And>y. y < sizeY m \<Longrightarrow> length (mazeList m ! y) = sizeX m"
    by (simp_all add: populated_def)
  have "set (concat (mazeList_refs m)) =
        (\<Union>y \<in> {..<sizeY m}. (\<lambda>x. (x, y)) ` {..<sizeX m})"
    using row by (auto simp: mazeList_refs_def row_refs_def len)
  also have "\<dots> = cells m" by (auto simp: cells_def)
  finally show ?thesis .
qed

lemma makeMazeBraided_extends:
  assumes "populated m" "makeMazeBraided m w r = (res, m', r')"
  shows "extends m m'"
proof (cases "\<not> mazeIsDone m \<or> w < - 1 \<or> w > 100")
  case True
  with assms show ?thesis by (auto simp: makeMazeBraided_def extends_refl split: if_splits)
next
  case False
  let ?f = "if w = - 1 then braid_dead_end else braid_loop_tile w"
  obtain res1 m1 r1 where ft: "for_tiles ?f (concat (mazeList_refs m)) m r = (res1, m1, r1)"
    by (cases "for_tiles ?f (concat (mazeList_refs m)) m r") auto
  with False assms(2) have m': "m' = m1" by (auto simp: makeMazeBraided_def split: sum.splits)
  have "extends m m1"
  proof (rule for_tiles_extends [OF _ assms(1) _ ft])
    show "set (concat (mazeList_refs m)) \<subseteq> cells m" using refs_cells [OF assms(1)] by simp
  next
    show "\<forall>t ma ra resa ma' ra'. populated ma \<longrightarrow> t \<in> cells ma \<longrightarrow>
            ?f t ma ra = (resa, ma', ra') \<longrightarrow> extends ma ma'"
    proof (intro allI impI)
      fix t ma ra resa ma' ra'
      assume p: "populated ma" and t: "t \<in> cells ma" and f: "?f t ma ra = (resa, ma', ra')"
      show "extends ma ma'"
      proof (cases "w = - 1")
        case True
        with f have "braid_dead_end t ma ra = (resa, ma', ra')" by simp
        then show ?thesis using braid_tile_extends [OF p t] by blast
      next
        case False
        with f have "braid_loop_tile w t ma ra = (resa, ma', ra')" by simp
        then show ?thesis using braid_tile_extends [OF p t] by blast
      qed
    qed
  qed
  with m' show ?thesis by simp
qed

lemma open_passage_inv:
  assumes inv: "braid_inv m" and t: "t \<in> cells m" and n: "neighbour m t d = Some b"
    and dn: "d \<notin> set (connections m t)"
    and m': "m' = append_connection (append_connection m b (opposite d)) t d"
  shows "braid_inv m'"
proof -
  from inv have pop: "populated m" and sym: "symmetric_connections m" and nd: "no_duplicates m"
    by (simp_all add: braid_inv_def)
  note po = passage_opened [OF pop t n m']
  note eq = frame_eqD [OF po(1)]
  from n t have b: "b \<in> cells m" by (rule neighbour_cells)
  have bt: "neighbour m b (opposite d) = Some t" using n t by (rule neighbour_back)
  have tb: "t \<noteq> b" using n by (rule neighbour_neq)
  have on: "opposite d \<notin> set (connections m b)"
  proof
    assume "opposite d \<in> set (connections m b)"
    from symmetricD [OF sym b this bt] dn show False by simp
  qed
  have mono: "set (connections m q) \<subseteq> set (connections m' q)" for q
    by (auto simp: po(3))
  have sym': "symmetric_connections m'"
    unfolding symmetric_connections_def eq
  proof (intro ballI allI impI)
    fix a d' y
    assume a: "a \<in> cells m" "d' \<in> set (connections m' a)" "neighbour m a d' = Some y"
    show "opposite d' \<in> set (connections m' y)"
    proof (cases "d' \<in> set (connections m a)")
      case True
      from symmetricD [OF sym a(1) True a(3)] mono show ?thesis by blast
    next
      case False
      with a(2) have "a = t \<and> d' = d \<or> a = b \<and> d' = opposite d"
        by (auto simp: po(3) split: if_splits)
      then show ?thesis
      proof
        assume "a = t \<and> d' = d"
        with a(3) n have "y = b" by simp
        with \<open>a = t \<and> d' = d\<close> tb show ?thesis by (simp add: po(3))
      next
        assume "a = b \<and> d' = opposite d"
        with a(3) bt have "y = t" by simp
        with \<open>a = b \<and> d' = opposite d\<close> show ?thesis by (simp add: po(3))
      qed
    qed
  qed
  have "no_duplicates m'"
    unfolding no_duplicates_def eq
  proof
    fix q assume "q \<in> cells m"
    with nd have "distinct (connections m q)" by (simp add: no_duplicates_def)
    with dn on show "distinct (connections m' q)" by (auto simp: po(3))
  qed
  with po(2) sym' show ?thesis by (simp add: braid_inv_def)
qed

lemma braid_tile_inv:
  assumes inv: "braid_inv m" and t: "t \<in> cells m"
    and run: "braid_dead_end t m r = (res, m', r') \<or> braid_loop_tile w t m r = (res, m', r')"
  shows "braid_inv m'"
proof -
  from inv have pop: "populated m" by (simp add: braid_inv_def)
  from braid_tile_cases [OF pop t run] show ?thesis
  proof
    assume "m' = m" with inv show ?thesis by simp
  next
    assume "res = Inr () \<and> (\<exists>d b. d \<notin> set (connections m t) \<and> neighbour m t d = Some b \<and>
             m' = append_connection (append_connection m b (opposite d)) t d)"
    then obtain d b where d: "d \<notin> set (connections m t)" and n: "neighbour m t d = Some b"
      and m': "m' = append_connection (append_connection m b (opposite d)) t d" by blast
    show ?thesis by (rule open_passage_inv [OF inv t n d m'])
  qed
qed

lemma for_tiles_invariant:
  assumes step: "\<forall>t m r res m' r'. P m \<longrightarrow> t \<in> cells m \<longrightarrow>
                   f t m r = (res, m', r') \<longrightarrow> P m' \<and> cells m' = cells m"
  shows "P m \<Longrightarrow> set ts \<subseteq> cells m \<Longrightarrow> for_tiles f ts m r = (res, m', r') \<Longrightarrow> P m'"
proof (induction ts arbitrary: m r)
  case Nil
  then show ?case by simp
next
  case (Cons t ts)
  obtain res1 m1 r1 where f: "f t m r = (res1, m1, r1)" by (cases "f t m r") auto
  from Cons.prems(2) have tc: "t \<in> cells m" by simp
  from step [rule_format, OF Cons.prems(1) tc f] have e1: "P m1" "cells m1 = cells m"
    by simp_all
  show ?case
  proof (cases res1)
    case (Inl e)
    with Cons.prems(3) f have "m' = m1" by simp
    with e1 show ?thesis by simp
  next
    case (Inr u)
    with Cons.prems(3) f have rest: "for_tiles f ts m1 r1 = (res, m', r')" by simp
    from Cons.prems(2) e1(2) have "set ts \<subseteq> cells m1" by simp
    from Cons.IH [OF e1(1) this rest] show ?thesis .
  qed
qed

lemma braid_step_inv:
  assumes p: "braid_inv ma" and t: "t \<in> cells ma"
    and f: "(if w = - 1 then braid_dead_end else braid_loop_tile w) t ma ra = (resa, ma', ra')"
  shows "braid_inv ma' \<and> cells ma' = cells ma"
proof -
  from p have pm: "populated ma" by (simp add: braid_inv_def)
  have run: "braid_dead_end t ma ra = (resa, ma', ra') \<or>
             braid_loop_tile w t ma ra = (resa, ma', ra')"
  proof (cases "w = - 1")
    case True with f show ?thesis by simp
  next
    case False with f show ?thesis by simp
  qed
  have "extends ma ma'" by (rule braid_tile_extends [OF pm t run])
  then have "frame ma' = frame ma" by (simp add: extends_def)
  then have "cells ma' = cells ma" by (rule frame_eqD(6))
  moreover have "braid_inv ma'" by (rule braid_tile_inv [OF p t run])
  ultimately show ?thesis by simp
qed

lemma makeMazeBraided_inv:
  assumes "braid_inv m" "makeMazeBraided m w r = (res, m', r')"
  shows "braid_inv m'"
proof (cases "\<not> mazeIsDone m \<or> w < - 1 \<or> w > 100")
  case True
  with assms(2) have "m' = m" by (auto simp: makeMazeBraided_def split: if_splits)
  with assms(1) show ?thesis by simp
next
  case False
  from assms(1) have pop: "populated m" by (simp add: braid_inv_def)
  define f where "f = (if w = - 1 then braid_dead_end else braid_loop_tile w)"
  obtain res1 m1 r1 where ft: "for_tiles f (concat (mazeList_refs m)) m r = (res1, m1, r1)"
    by (cases "for_tiles f (concat (mazeList_refs m)) m r") auto
  with False assms(2) have m': "m' = m1"
    by (auto simp: makeMazeBraided_def f_def split: sum.splits)
  have step: "\<forall>t ma ra resa ma' ra'. braid_inv ma \<longrightarrow> t \<in> cells ma \<longrightarrow>
            f t ma ra = (resa, ma', ra') \<longrightarrow> braid_inv ma' \<and> cells ma' = cells ma"
    unfolding f_def using braid_step_inv by blast
  have sub: "set (concat (mazeList_refs m)) \<subseteq> cells m" using refs_cells [OF pop] by simp
  have "braid_inv m1" by (rule for_tiles_invariant [of braid_inv f, OF step assms(1) sub ft])
  with m' show ?thesis by simp
qed

lemma braided_inv: "braided m m' \<Longrightarrow> braid_inv m \<Longrightarrow> braid_inv m'"
proof (induction rule: braided.induct)
  case (braided_none m)
  then show ?case .
next
  case (braided_pass m m' weightBraid r res m'' r')
  then have "braid_inv m'" by simp
  then show ?case using braided_pass.hyps(2) by (rule makeMazeBraided_inv)
qed

lemma braided_extends: "braided m m' \<Longrightarrow> populated m \<Longrightarrow> extends m m'"
proof (induction rule: braided.induct)
  case (braided_none m)
  then show ?case by (simp add: extends_refl)
next
  case (braided_pass m m' weightBraid r res m'' r')
  then have e: "extends m m'" by simp
  then have "populated m'" by (simp add: extends_def)
  from makeMazeBraided_extends [OF this braided_pass.hyps(2)] e show ?case
    by (blast intro: extends_trans)
qed




subsection \<open>The worked example, run\<close>

lemma times_100_zero: "times_100 0 = 0"
  by (simp add: times_100_def excess_bits_def round_half_even_def)

lemma rnd_random_zero: "rnd_random (sconst 0) = (0, sconst 0)"
  by (simp add: rnd_random_def)

lemmas run_defs = populate_def choose_startingtile_def
    rnd_choice_def rnd_random_zero rnd_shuffle_def mazeList_refs_def row_refs_def new_MazeTile_def
    set_workedOn_def upd_tile_def tile_def
    Let_def upt_rec neighbours_of_def getNextTiles_def valid_ref_def grow_body_def select_tile_def
    connectTiles_def append_connection_def finish_formation_def makeEntryandExit_def
    get_wall_tiles_def pick_positions.simps mark_boundary_tile_def outward_direction_def
    simple_body_def times_100_zero
    simple_loop.simps grow_loop.simps

lemma example_run:
  "makeMazeGrowTree example_maze 99 97 (sconst 0) = Some (Inr True, example_formed, sconst 0)"
  by (simp add: makeMazeGrowTree_def example_maze_def example_formed_def run_defs)

lemma example_braiding:
  "makeMazeBraided example_formed (- 1) (sconst 0) = (Inr True, example_braided, sconst 0)"
  by (simp add: makeMazeBraided_def example_formed_def example_braided_def run_defs
      braid_dead_end_def add_connection_def remove_value_def connectTilesWithString_def
      cannot_connect_def)

lemma example_unformed: "unformed example_maze"
  by (simp add: unformed_def example_maze_def)

lemma well_formed_braid_inv: "well_formed m \<Longrightarrow> braid_inv m"
  by (simp add: well_formed_def braid_inv_def)


subsection \<open>The spanning tree\<close>



subsection \<open>Symmetric connections without repetition\<close>

text \<open>
  Claim C2. In every formed maze (either algorithm, followed by any number of braiding
  calls, none included), whenever a tile A holds a direction D whose neighbour B lies in
  the grid, B holds the opposite direction; and no tile holds a direction twice.
\<close>

theorem connections_symmetric_and_distinct:
  assumes "unformed m0"
    and "makeMazeSimple m0 r = Some (Inr True, m1, r1) \<or>
         makeMazeGrowTree m0 weightHigh weightLow r = Some (Inr True, m1, r1)"
    and "braided m1 m2"
  shows "symmetric_connections m2 \<and> no_duplicates m2"
proof -
  from formation_postcondition [OF assms(1,2)] have "well_formed m1" by simp
  then have "braid_inv m1" by (rule well_formed_braid_inv)
  with assms(3) have "braid_inv m2" by (rule braided_inv)
  then show ?thesis by (simp add: braid_inv_def)
qed

theorem connections_symmetric_and_distinct_witness:
  "symmetric_connections example_braided \<and> no_duplicates example_braided"
  using connections_symmetric_and_distinct
    [OF example_unformed disjI2 [OF example_run]
        braided_pass [OF braided_none example_braiding]]
  by simp

subsection \<open>Entry and exit\<close>




subsection \<open>State guards\<close>

text \<open>
  Claim C5. A formation algorithm called on a maze that is already formed fails with
  errorcode 3 and hands the maze back as it was; braiding and each exporter (symbolic list,
  distance list, detailed list, picture) called on a maze that is not formed fail with
  errorcode 4.
\<close>

theorem state_guards:
  assumes "mazeIsDone m" and "\<not> mazeIsDone m'"
  shows "makeMazeSimple m r = Some (Inl (MazeError ''Maze is already done'' 3), m, r) \<and>
         makeMazeGrowTree m weightHigh weightLow r =
           Some (Inl (MazeError ''Maze is already done'' 3), m, r) \<and>
         makeMazeBraided m' weightBraid r =
           (Inl (MazeError ''Maze needs to be formed first'' 4), m', r) \<and>
         get_maze_as_list m' = Inl (MazeError ''Maze needs to be formed first'' 4) \<and>
         get_maze_with_distances m' = Inl (MazeError ''Maze needs to be formed first'' 4) \<and>
         get_maze_detailed_info m' = Inl (MazeError ''Maze needs to be formed first'' 4) \<and>
         makePP getrgb m' mode colorWall colorFloor pixelSizeOfTile =
           Inl (MazeError ''There is no Maze yet'' 4)"
  using assms
  by (simp add: makeMazeSimple_def makeMazeGrowTree_def makeMazeBraided_def
      get_maze_as_list_def get_maze_with_distances_def get_maze_detailed_info_def makePP_def
      already_done_def not_formed_def)

theorem state_guards_witness:
  "mazeIsDone \<lparr>sizeX = 1, sizeY = 2, mazeName = ''A_Maze'', mazeIsDone = True,
      mazeList = [[\<lparr>workedOn = True, wall = False, coordinateX = 0, coordinateY = 0,
                     connectTo = [South, North], is_entry = Some True\<rparr>],
                  [\<lparr>workedOn = True, wall = False, coordinateX = 0, coordinateY = 1,
                     connectTo = [North, South], is_entry = Some False\<rparr>]],
      start_wall = ''N'', end_wall = ''S''\<rparr> \<and>
   \<not> mazeIsDone \<lparr>sizeX = 1, sizeY = 2, mazeName = ''A_Maze'', mazeIsDone = False,
      mazeList = [], start_wall = ''N'', end_wall = ''S''\<rparr> \<and>
   makeMazeSimple \<lparr>sizeX = 1, sizeY = 2, mazeName = ''A_Maze'', mazeIsDone = True,
      mazeList = [[\<lparr>workedOn = True, wall = False, coordinateX = 0, coordinateY = 0,
                     connectTo = [South, North], is_entry = Some True\<rparr>],
                  [\<lparr>workedOn = True, wall = False, coordinateX = 0, coordinateY = 1,
                     connectTo = [North, South], is_entry = Some False\<rparr>]],
      start_wall = ''N'', end_wall = ''S''\<rparr> (sconst 0) =
     Some (Inl (MazeError ''Maze is already done'' 3),
       \<lparr>sizeX = 1, sizeY = 2, mazeName = ''A_Maze'', mazeIsDone = True,
      mazeList = [[\<lparr>workedOn = True, wall = False, coordinateX = 0, coordinateY = 0,
                     connectTo = [South, North], is_entry = Some True\<rparr>],
                  [\<lparr>workedOn = True, wall = False, coordinateX = 0, coordinateY = 1,
                     connectTo = [North, South], is_entry = Some False\<rparr>]],
      start_wall = ''N'', end_wall = ''S''\<rparr>, sconst 0) \<and>
   get_maze_as_list \<lparr>sizeX = 1, sizeY = 2, mazeName = ''A_Maze'', mazeIsDone = False,
      mazeList = [], start_wall = ''N'', end_wall = ''S''\<rparr> =
     Inl (MazeError ''Maze needs to be formed first'' 4)"
  using state_guards
    [of "\<lparr>sizeX = 1, sizeY = 2, mazeName = ''A_Maze'', mazeIsDone = True,
      mazeList = [[\<lparr>workedOn = True, wall = False, coordinateX = 0, coordinateY = 0,
                     connectTo = [South, North], is_entry = Some True\<rparr>],
                  [\<lparr>workedOn = True, wall = False, coordinateX = 0, coordinateY = 1,
                     connectTo = [North, South], is_entry = Some False\<rparr>]],
      start_wall = ''N'', end_wall = ''S''\<rparr>"
       "\<lparr>sizeX = 1, sizeY = 2, mazeName = ''A_Maze'', mazeIsDone = False,
      mazeList = [], start_wall = ''N'', end_wall = ''S''\<rparr>"
       "sconst 0"]
  by simp

subsection \<open>Seeded generation\<close>

text \<open>
  Claim C7. With an explicit seed, the result of \<^verbatim>\<open>generate_maze\<close> in mode
  \<^verbatim>\<open>"list"\<close> is determined by its arguments alone: the only input from outside the
  arguments, the clock reading taken by the constructor, has no influence on it.
\<close>

theorem seeded_generation_deterministic:
  "generate_maze seed_rng getrgb now1 width height name algorithm algorithm_settings ''list''
     image_settings (Some seed) sw ew =
   generate_maze seed_rng getrgb now2 width height name algorithm algorithm_settings ''list''
     image_settings (Some seed) sw ew"
  by (simp add: generate_maze_def Maze_init_def)

subsection \<open>Candidate tiles of the wall selector Any\<close>

text \<open>
  Claim C9. The candidate list for \<^verbatim>\<open>"Any"\<close> is meant to hold every outer tile
  once. On a maze of two columns and a single row the code returns each tile twice: the
  top row and the bottom row are the same row.
\<close>

theorem any_wall_tiles_repeat_on_single_row:
  "get_wall_tiles \<lparr>sizeX = 2, sizeY = 1, mazeName = n, mazeIsDone = d, mazeList = g,
                   start_wall = sw, end_wall = ew\<rparr> ''Any'' = [(0, 0), (1, 0), (0, 0), (1, 0)]"
  by (simp add: get_wall_tiles_def upt_rec)

subsection \<open>Algorithm settings\<close>






subsection \<open>Termination of formation\<close>

lemma pick_positions_same_tile:
  assumes "pick_positions st en r = Some y"
  shows "\<not> (st \<noteq> [] \<and> en \<noteq> [] \<and> set st \<subseteq> {c} \<and> set en \<subseteq> {c})"
proof (rule pick_positions.raw_induct
    [where P = "\<lambda>st en r y. \<not> (st \<noteq> [] \<and> en \<noteq> [] \<and> set st \<subseteq> {c} \<and> set en \<subseteq> {c})",
      OF _ assms])
  fix pick :: "pos list \<Rightarrow> pos list \<Rightarrow> rng \<Rightarrow> ((error + pos \<times> pos) \<times> rng) option"
    and st en r y
  assume IH: "\<And>en r b y. pick en r b = Some y \<Longrightarrow>
                \<not> (en \<noteq> [] \<and> r \<noteq> [] \<and> set en \<subseteq> {c} \<and> set r \<subseteq> {c})"
    and step: "(case rnd_choice st r of
        (Inl e, r1) \<Rightarrow> Some (Inl e, r1)
      | (Inr entry_pos, r1) \<Rightarrow>
          (case rnd_choice en r1 of
             (Inl e, r2) \<Rightarrow> Some (Inl e, r2)
           | (Inr exit_pos, r2) \<Rightarrow>
               if entry_pos \<noteq> exit_pos then Some (Inr (entry_pos, exit_pos), r2)
               else pick st en r2)) = Some y"
  show "\<not> (st \<noteq> [] \<and> en \<noteq> [] \<and> set st \<subseteq> {c} \<and> set en \<subseteq> {c})"
  proof
    assume a: "st \<noteq> [] \<and> en \<noteq> [] \<and> set st \<subseteq> {c} \<and> set en \<subseteq> {c}"
    then have "st ! (shd r mod length st) \<in> set st" "en ! (shd (stl r) mod length en) \<in> set en"
      by simp_all
    with a have e: "st ! (shd r mod length st) = c" "en ! (shd (stl r) mod length en) = c"
      by blast+
    from step a e have "pick st en (stl (stl r)) = Some y"
      by (simp add: rnd_choice_def)
    from IH [OF this] a show False by simp
  qed
qed

lemma makeEntryandExit_single_tile:
  assumes "sizeX m = 1" "sizeY m = 1"
  shows "makeEntryandExit m r = None"
proof -
  have "get_wall_tiles m w \<noteq> [] \<and> set (get_wall_tiles m w) \<subseteq> {(0, 0)}" for w
    using assms by (simp add: get_wall_tiles_def)
  then have "pick_positions (get_wall_tiles m (start_wall m)) (get_wall_tiles m (end_wall m)) r = None"
    using pick_positions_same_tile [where c = "(0, 0)"]
    by (metis option.exhaust)
  then show ?thesis by (simp add: makeEntryandExit_def)
qed

text \<open>
  Claim C3. Formation is meant to return for every size from 1 by 1 upwards. On the
  1 by 1 maze both algorithms reach the entry/exit loop with every candidate equal to the
  only tile, so the pair of draws never differs and the call never returns, whatever the
  random stream and the wall selectors are.
\<close>

theorem formation_hangs_on_single_tile:
  "makeMazeSimple \<lparr>sizeX = 1, sizeY = 1, mazeName = n, mazeIsDone = False, mazeList = [],
                    start_wall = sw, end_wall = ew\<rparr> r = None \<and>
   makeMazeGrowTree \<lparr>sizeX = 1, sizeY = 1, mazeName = n, mazeIsDone = False, mazeList = [],
                    start_wall = sw, end_wall = ew\<rparr> weightHigh weightLow r = None"
  by (simp add: makeMazeSimple_def makeMazeGrowTree_def populate_def choose_startingtile_def
    rnd_choice_def mazeList_refs_def row_refs_def new_MazeTile_def set_workedOn_def upd_tile_def
    tile_def Let_def neighbours_of_def getNextTiles_def valid_ref_def grow_body_def
    select_tile_def finish_formation_def makeEntryandExit_single_tile rnd_random_def
    simple_loop.simps grow_loop.simps)

end
